theory Spec2Isabelle
  imports Complex_Main "HOL-Library.Multiset"
begin

section \<open>Learning-to-rank helpers (azs\_helpers/l2r\_helper.py)\<close>

text \<open>
  A shallow embedding of the numeric core of \<^verbatim>\<open>l2r_helper.py\<close>:
  \<^verbatim>\<open>compute_judgments_after_training\<close>, \<^verbatim>\<open>dcg_at_k\<close>, \<^verbatim>\<open>ndcg_at_k\<close>,
  \<^verbatim>\<open>get_range_ndcg\<close> and \<^verbatim>\<open>escape_query\<close>.

  Numbers. A float64 is modelled by the real number it stands for: rounding, overflow and
  NaN or infinite inputs are outside the model. What is kept is the dynamic type of a
  scalar, because Python and numpy divide by zero differently: a Python \<^verbatim>\<open>int\<close> or
  \<^verbatim>\<open>float\<close> raises \<^verbatim>\<open>ZeroDivisionError\<close>, a \<^verbatim>\<open>numpy.float64\<close> warns and yields
  \<^verbatim>\<open>nan\<close> or \<^verbatim>\<open>inf\<close>. An int64 array element is modelled by an \<open>int\<close> between
  \<open>- 2\<^sup>6\<^sup>3\<close> and \<open>2\<^sup>6\<^sup>3 - 1\<close>: the conversion that stores a label in such an array is
  bounded.
\<close>

subsection \<open>Errors and scalars\<close>

datatype py_error = ValueError | ZeroDivisionError | IndexError

datatype scalar =
    PyInt int
  | PyFloat real
  | NpFloat real
  | NpNaN
  | NpInf
  | NpNegInf

text \<open>Scalars that come from numpy (\<^verbatim>\<open>numpy.float64\<close>).\<close>

fun is_numpy :: "scalar \<Rightarrow> bool" where
  "is_numpy (PyInt _) = False"
| "is_numpy (PyFloat _) = False"
| "is_numpy _ = True"

text \<open>The real number held by a finite scalar.\<close>

fun fin :: "scalar \<Rightarrow> real" where
  "fin (PyInt i) = real_of_int i"
| "fin (PyFloat x) = x"
| "fin (NpFloat x) = x"
| "fin _ = 0"

fun is_finite :: "scalar \<Rightarrow> bool" where
  "is_finite (PyInt _) = True"
| "is_finite (PyFloat _) = True"
| "is_finite (NpFloat _) = True"
| "is_finite _ = False"

text \<open>Truth value of a scalar (\<^verbatim>\<open>not x\<close> is its negation), which is also \<^verbatim>\<open>x != 0\<close>:
  a number is falsy exactly when it is zero; \<^verbatim>\<open>nan\<close> and \<^verbatim>\<open>inf\<close> are truthy.\<close>

fun truthy :: "scalar \<Rightarrow> bool" where
  "truthy (PyInt i) = (i \<noteq> 0)"
| "truthy (PyFloat x) = (x \<noteq> 0)"
| "truthy (NpFloat x) = (x \<noteq> 0)"
| "truthy _ = True"

text \<open>\<^verbatim>\<open>a + b\<close>. Two Python operands give a Python number; as soon as one operand is a
  \<^verbatim>\<open>numpy.float64\<close> the result is one (numpy's reflected operator takes precedence).\<close>

fun add :: "scalar \<Rightarrow> scalar \<Rightarrow> scalar" where
  "add (PyInt a) (PyInt b) = PyInt (a + b)"
| "add (PyInt a) (PyFloat b) = PyFloat (real_of_int a + b)"
| "add (PyFloat a) (PyInt b) = PyFloat (a + real_of_int b)"
| "add (PyFloat a) (PyFloat b) = PyFloat (a + b)"
| "add NpNaN _ = NpNaN"
| "add _ NpNaN = NpNaN"
| "add NpInf NpNegInf = NpNaN"
| "add NpNegInf NpInf = NpNaN"
| "add NpInf _ = NpInf"
| "add _ NpInf = NpInf"
| "add NpNegInf _ = NpNegInf"
| "add _ NpNegInf = NpNegInf"
| "add a b = NpFloat (fin a + fin b)"

text \<open>\<^verbatim>\<open>a / b\<close> for finite operands. Python raises on a zero divisor; numpy returns
  \<^verbatim>\<open>nan\<close> for \<^verbatim>\<open>0/0\<close> and a signed infinity otherwise (with a RuntimeWarning).\<close>

definition truediv :: "scalar \<Rightarrow> scalar \<Rightarrow> py_error + scalar" where
  "truediv a b =
     (if is_numpy a \<or> is_numpy b then
        (if fin b = 0 then
           Inr (if fin a = 0 then NpNaN else if 0 < fin a then NpInf else NpNegInf)
         else Inr (NpFloat (fin a / fin b)))
      else
        (if fin b = 0 then Inl ZeroDivisionError else Inr (PyFloat (fin a / fin b))))"

subsection \<open>Sequences\<close>

text \<open>Python's slice \<^verbatim>\<open>xs[a:b]\<close>: a negative bound counts from the end, every bound is
  clipped to the sequence, and the slice is empty when it ends before it starts.\<close>

definition clip_index :: "nat \<Rightarrow> int \<Rightarrow> nat" where
  "clip_index n i = (if i < 0 then nat (int n + i) else min (nat i) n)"

definition py_slice :: "'a list \<Rightarrow> int \<Rightarrow> int \<Rightarrow> 'a list" where
  "py_slice xs a b =
     (let s = clip_index (length xs) a; e = clip_index (length xs) b
      in take (e - s) (drop s xs))"

text \<open>\<^verbatim>\<open>np.arange(a, b)\<close> as floats, and \<^verbatim>\<open>np.log2\<close>.\<close>

definition arange :: "nat \<Rightarrow> nat \<Rightarrow> real list" where
  "arange a b = map real [a..<b]"

definition log2 :: "real \<Rightarrow> real" where
  "log2 x = log 2 x"

text \<open>Elementwise \<^verbatim>\<open>xs / ys\<close> of two arrays of the same shape.\<close>

definition divide :: "real list \<Rightarrow> real list \<Rightarrow> real list" where
  "divide xs ys = map2 (/) xs ys"

text \<open>\<^verbatim>\<open>sorted(r, reverse=True)\<close>.\<close>

definition sorted_reverse :: "real list \<Rightarrow> real list" where
  "sorted_reverse r = rev (sort r)"

subsection \<open>Gain functions\<close>

text \<open>
\<^verbatim>\<open>
def dcg_at_k(r, k, method=0):
    r = np.asfarray(r)[:k]
    if r.size:
        if method == 0:
            return r[0] + np.sum(r[1:] / np.log2(np.arange(2, r.size + 1)))
        elif method == 1:
            return np.sum(r / np.log2(np.arange(2, r.size + 2)))
        else:
            raise ValueError("method must be 0 or 1.")
    return 0.0
\<close>
\<close>

definition dcg_at_k :: "real list \<Rightarrow> int \<Rightarrow> int \<Rightarrow> py_error + scalar" where
  "dcg_at_k r0 k method =
     (let r = py_slice r0 0 k in
      if length r \<noteq> 0 then
        (if method = 0 then
           Inr (NpFloat (hd r + sum_list (divide (tl r) (map log2 (arange 2 (length r + 1))))))
         else if method = 1 then
           Inr (NpFloat (sum_list (divide r (map log2 (arange 2 (length r + 2))))))
         else Inl ValueError)
      else Inr (PyFloat 0))"

text \<open>
\<^verbatim>\<open>
def ndcg_at_k(r, k, method=0):
    dcg_max = dcg_at_k(sorted(r, reverse=True), k, method)
    if not dcg_max:
        return 0.0
    return dcg_at_k(r, k, method) / dcg_max
\<close>
\<close>

definition ndcg_at_k :: "real list \<Rightarrow> int \<Rightarrow> int \<Rightarrow> py_error + scalar" where
  "ndcg_at_k r k method =
     (case dcg_at_k (sorted_reverse r) k method of
        Inl e \<Rightarrow> Inl e
      | Inr dcg_max \<Rightarrow>
          if \<not> truthy dcg_max then Inr (PyFloat 0)
          else (case dcg_at_k r k method of
                  Inl e \<Rightarrow> Inl e
                | Inr d \<Rightarrow> truediv d dcg_max))"

text \<open>
\<^verbatim>\<open>
def get_range_ndcg(ndcgs, k_start, k_end):
    results = []
    for k in range(k_start, k_end):
        count = 0
        ndcg_sum = 0
        for ndcg_input in ndcgs:
            current_ndcg = ndcg_at_k(ndcg_input, k)
            ndcg_sum += current_ndcg
            if current_ndcg != 0:
                count += 1
        results.append(ndcg_sum / count)
    return results
\<close>
  The inner loop carries \<open>(cnt, ndcg_sum)\<close>, \<open>cnt\<close> for \<^verbatim>\<open>count\<close>; the outer loop carries
  \<open>results\<close>.
\<close>

fun ndcg_inner :: "real list list \<Rightarrow> int \<Rightarrow> int \<times> scalar \<Rightarrow> py_error + int \<times> scalar" where
  "ndcg_inner [] k (cnt, ndcg_sum) = Inr (cnt, ndcg_sum)"
| "ndcg_inner (ndcg_input # rest) k (cnt, ndcg_sum) =
     (case ndcg_at_k ndcg_input k 0 of
        Inl e \<Rightarrow> Inl e
      | Inr current_ndcg \<Rightarrow>
          ndcg_inner rest k
            (if truthy current_ndcg then cnt + 1 else cnt, add ndcg_sum current_ndcg))"

fun ndcg_outer :: "real list list \<Rightarrow> int list \<Rightarrow> scalar list \<Rightarrow> py_error + scalar list" where
  "ndcg_outer ndcgs [] results = Inr results"
| "ndcg_outer ndcgs (k # ks) results =
     (case ndcg_inner ndcgs k (0, PyInt 0) of
        Inl e \<Rightarrow> Inl e
      | Inr (cnt, ndcg_sum) \<Rightarrow>
          (case truediv ndcg_sum (PyInt cnt) of
             Inl e \<Rightarrow> Inl e
           | Inr q \<Rightarrow> ndcg_outer ndcgs ks (results @ [q])))"

text \<open>\<^verbatim>\<open>range(a, b)\<close>.\<close>

definition py_range :: "int \<Rightarrow> int \<Rightarrow> int list" where
  "py_range a b = [a..b - 1]"

definition get_range_ndcg :: "real list list \<Rightarrow> int \<Rightarrow> int \<Rightarrow> py_error + scalar list" where
  "get_range_ndcg ndcgs k_start k_end = ndcg_outer ndcgs (py_range k_start k_end) []"

subsection \<open>Reference definitions\<close>

text \<open>The reference definition of DCG, following the words of the specification: \<open>t\<close> is
  the first \<open>k\<close> entries of \<open>r\<close>; an empty \<open>t\<close> gives 0; method 0 adds \<open>t[0]\<close> and then
  \<open>t[i-1] / log2(i)\<close> for the 1-indexed positions \<open>i = 2..|t|\<close>; method 1 adds
  \<open>t[i-1] / log2(i+1)\<close> for \<open>i = 1..|t|\<close>.\<close>

definition dcg_spec :: "real list \<Rightarrow> nat \<Rightarrow> int \<Rightarrow> real" where
  "dcg_spec r k method =
     (let t = take k r in
      if t = [] then 0
      else if method = 0 then t ! 0 + (\<Sum>i = 2..length t. t ! (i - 1) / log 2 (real i))
      else (\<Sum>i = 1..length t. t ! (i - 1) / log 2 (real i + 1)))"

text \<open>Notions the specification uses for \<^verbatim>\<open>get_range_ndcg\<close>: whether the ideal DCG of a
  sequence at \<open>k\<close> is zero (default method), the NDCG of a sequence at \<open>k\<close> as a real number,
  the number of sequences whose NDCG at \<open>k\<close> is not zero, and the sum of the NDCGs divided by
  that number.\<close>

definition ideal_zero :: "real list \<Rightarrow> int \<Rightarrow> bool" where
  "ideal_zero r k = (case dcg_at_k (sorted_reverse r) k 0 of Inr v \<Rightarrow> \<not> truthy v | Inl e \<Rightarrow> False)"

definition ndcg_val :: "real list \<Rightarrow> int \<Rightarrow> real" where
  "ndcg_val r k = (case ndcg_at_k r k 0 of Inr v \<Rightarrow> fin v | Inl e \<Rightarrow> 0)"

definition nonzero_count :: "real list list \<Rightarrow> int \<Rightarrow> nat" where
  "nonzero_count ndcgs k = length (filter (\<lambda>r. ndcg_val r k \<noteq> 0) ndcgs)"

definition mean_nonzero :: "real list list \<Rightarrow> int \<Rightarrow> real" where
  "mean_nonzero ndcgs k = sum_list (map (\<lambda>r. ndcg_val r k) ndcgs) / real (nonzero_count ndcgs k)"

text \<open>The scalar \<^verbatim>\<open>ndcg_at_k(r, k)\<close> returns: the Python float \<^verbatim>\<open>0.0\<close> when the ideal DCG is
  zero, a \<^verbatim>\<open>numpy.float64\<close> otherwise.\<close>

definition nd :: "real list \<Rightarrow> int \<Rightarrow> scalar" where
  "nd r k = (if ideal_zero r k then PyFloat 0 else NpFloat (ndcg_val r k))"

text \<open>Every sequence has a zero ideal DCG at \<open>k\<close> (also when there is no sequence); and the
  entry of the result for \<open>k\<close> when the division does not raise.\<close>

definition all_ideal_zero :: "real list list \<Rightarrow> int \<Rightarrow> bool" where
  "all_ideal_zero ndcgs k = list_all (\<lambda>r. ideal_zero r k) ndcgs"

definition range_value :: "real list list \<Rightarrow> int \<Rightarrow> scalar" where
  "range_value ndcgs k =
     (if nonzero_count ndcgs k = 0 then NpNaN else NpFloat (mean_nonzero ndcgs k))"

subsection \<open>Rank-judgment conversion\<close>

text \<open>
  \<^verbatim>\<open>argsort\<close> (numpy's default introsort, not stable) is a parameter of the model: any
  function that returns a permutation of the positions which puts the values in ascending
  order. How it orders equal values is left open, as it is in numpy.
\<close>

definition valid_argsort :: "(real list \<Rightarrow> nat list) \<Rightarrow> bool" where
  "valid_argsort f \<longleftrightarrow>
     (\<forall>xs. mset (f xs) = mset [0..<length xs] \<and> sorted (map ((!) xs) (f xs)))"

text \<open>Two instances: equal values in ascending, and in descending, order of position.\<close>

definition argsort_stable :: "real list \<Rightarrow> nat list" where
  "argsort_stable xs = map snd (sort_key fst (zip xs [0..<length xs]))"


text \<open>\<^verbatim>\<open>Series.sort_values()\<close>: the values in ascending order.\<close>

definition sort_values :: "real list \<Rightarrow> real list" where
  "sort_values ys = sort ys"

text \<open>Storing a float64 in an int64 array converts it as a C cast does: the value is
  truncated toward zero; a value whose truncation is not an int64 is stored as the least
  int64 (\<^verbatim>\<open>np.array([1e19]).astype(np.int64)\<close> is \<^verbatim>\<open>-9223372036854775808\<close>).\<close>

definition int64_min :: int where
  "int64_min = - (2 ^ 63)"

definition int64_max :: int where
  "int64_max = 2 ^ 63 - 1"

definition trunc_toward_zero :: "real \<Rightarrow> int" where
  "trunc_toward_zero x = (if 0 \<le> x then \<lfloor>x\<rfloor> else \<lceil>x\<rceil>)"

definition astype_int :: "real \<Rightarrow> int" where
  "astype_int x =
     (if int64_min \<le> trunc_toward_zero x \<and> trunc_toward_zero x \<le> int64_max
      then trunc_toward_zero x else int64_min)"


text \<open>\<^verbatim>\<open>np.empty_like(idxs)\<close>: an int64 array of the same length whose slots are not
  initialised (\<open>None\<close>).\<close>

definition empty_like :: "nat list \<Rightarrow> int option list" where
  "empty_like idxs = replicate (length idxs) None"

text \<open>\<^verbatim>\<open>a[idxs] = vals\<close>: \<open>vals\<close> must have the shape of \<open>idxs\<close> or be a single value
  (which is broadcast), else numpy raises \<^verbatim>\<open>ValueError\<close>; the writes happen in order.
  A position outside the array is an \<^verbatim>\<open>IndexError\<close> (an argsort result never has one).\<close>

definition setitem :: "int option list \<Rightarrow> nat list \<Rightarrow> real list \<Rightarrow> py_error + int option list" where
  "setitem a idxs vals =
     (if \<exists>i \<in> set idxs. length a \<le> i then Inl IndexError
      else if length vals = length idxs then
        Inr (fold (\<lambda>(i, v) a. a[i := Some (astype_int v)]) (zip idxs vals) a)
      else if length vals = 1 then
        Inr (fold (\<lambda>i a. a[i := Some (astype_int (hd vals))]) idxs a)
      else Inl ValueError)"

text \<open>
\<^verbatim>\<open>
def compute_judgments_after_training(predictions, query_doc_counts, X_test, y_test, ...):
    model_judgments = []; azs_judgments = []; baseline = []
    start = 0; end = 0
    for query_id, query_doc_count in enumerate(query_doc_counts):
        start = end
        end += query_doc_count
        relevance_scores = predictions[start:end]
        sorted_idxs = relevance_scores.argsort()
        judgments = np.empty_like(sorted_idxs)
        judgments[sorted_idxs] = y_test[start:end].sort_values()
        model_judgments.append(judgments)
        azs_scores = X_test["@search.score"][start:end]
        sorted_azs_idxs = azs_scores.argsort()
        azs_judgments_for_query = np.empty_like(sorted_azs_idxs)
        azs_judgments_for_query[sorted_azs_idxs] = y_test[start:end].sort_values()
        azs_judgments.append(azs_judgments_for_query)
        baseline.append(y_test[start:end])
    return np.array(model_judgments), np.array(azs_judgments), np.array(baseline)
\<close>
  \<open>X_test\<close> is represented by its column \<^verbatim>\<open>"@search.score"\<close>. The three results are the
  sequences of per-query arrays (what \<^verbatim>\<open>np.array\<close> wraps). The verbose printing does
  not touch the result and is left out.
\<close>

type_synonym judgments = "int option list list \<times> int option list list \<times> real list list"

fun judgments_loop ::
  "(real list \<Rightarrow> nat list) \<Rightarrow> real list \<Rightarrow> real list \<Rightarrow> real list \<Rightarrow> int \<Rightarrow> int list \<Rightarrow>
   judgments \<Rightarrow> py_error + judgments" where
  "judgments_loop argsort predictions search_score y_test end' [] acc = Inr acc"
| "judgments_loop argsort predictions search_score y_test end'
     (query_doc_count # rest) (model_judgments, azs_judgments, baseline) =
     (let start = end';
          end'' = end' + query_doc_count;
          relevance_scores = py_slice predictions start end'';
          sorted_idxs = argsort relevance_scores
      in case setitem (empty_like sorted_idxs) sorted_idxs
                (sort_values (py_slice y_test start end'')) of
           Inl e \<Rightarrow> Inl e
         | Inr judgments \<Rightarrow>
            (let azs_scores = py_slice search_score start end'';
                 sorted_azs_idxs = argsort azs_scores
             in case setitem (empty_like sorted_azs_idxs) sorted_azs_idxs
                       (sort_values (py_slice y_test start end'')) of
                  Inl e \<Rightarrow> Inl e
                | Inr azs_judgments_for_query \<Rightarrow>
                    judgments_loop argsort predictions search_score y_test end'' rest
                      (model_judgments @ [judgments],
                       azs_judgments @ [azs_judgments_for_query],
                       baseline @ [py_slice y_test start end''])))"

definition compute_judgments_after_training ::
  "(real list \<Rightarrow> nat list) \<Rightarrow> real list \<Rightarrow> int list \<Rightarrow> real list \<Rightarrow> real list \<Rightarrow>
   py_error + judgments" where
  "compute_judgments_after_training argsort predictions query_doc_counts search_score y_test =
     judgments_loop argsort predictions search_score y_test 0 query_doc_counts ([], [], [])"

text \<open>The query slices of a vector, as the specification's data model describes them:
  contiguous, gapless, one per entry of the Query Boundary List.\<close>

fun slices :: "'a list \<Rightarrow> int list \<Rightarrow> 'a list list" where
  "slices xs [] = []"
| "slices xs (c # cs) = take (nat c) xs # slices (drop (nat c) xs) cs"

text \<open>The shape invariant of the data model: non-negative counts that add up to the length
  of each of the three vectors.\<close>

definition well_shaped :: "real list \<Rightarrow> int list \<Rightarrow> real list \<Rightarrow> real list \<Rightarrow> bool" where
  "well_shaped predictions query_doc_counts search_score y_test \<longleftrightarrow>
     (\<forall>c \<in> set query_doc_counts. 0 \<le> c)
     \<and> sum_list query_doc_counts = int (length predictions)
     \<and> sum_list query_doc_counts = int (length search_score)
     \<and> sum_list query_doc_counts = int (length y_test)"

text \<open>The scatter of one query: the \<open>p\<close>-th smallest label goes to the position that holds
  the \<open>p\<close>-th smallest score.\<close>

definition scatter :: "(real list \<Rightarrow> nat list) \<Rightarrow> real list \<Rightarrow> real list \<Rightarrow> int option list" where
  "scatter argsort scores labels =
     fold (\<lambda>(i, v) a. a[i := Some (astype_int v)]) (zip (argsort scores) (sort labels))
       (replicate (length scores) None)"

subsection \<open>Query escaping\<close>







subsection \<open>Partial sums of the exponential series\<close>

text \<open>Used to enclose the logarithms in the numeric examples: \<open>horner [1, \<dots>, n] x\<close> is
  \<open>1 + x/1 * (1 + x/2 * (\<dots>))\<close>, the sum of the first \<open>n\<close> terms of the series of \<open>exp x\<close>.\<close>

fun horner :: "real list \<Rightarrow> real \<Rightarrow> real" where
  "horner [] x = 0"
| "horner (d # ds) x = 1 + x / d * horner ds x"

definition exp_poly :: "nat \<Rightarrow> real \<Rightarrow> real" where
  "exp_poly n x = horner (map real [Suc 0..<Suc (0 + n)]) x"

section \<open>Properties\<close>

subsection \<open>Slices\<close>

lemma py_slice_0: "0 \<le> k \<Longrightarrow> py_slice xs 0 k = take (nat k) xs"
  by (simp add: py_slice_def clip_index_def Let_def min_def)

subsection \<open>escape\_query\<close>









subsection \<open>dcg\_at\_k: the method argument\<close>

text \<open>
  C5 (as the code has it). A method other than 0 or 1 makes \<^verbatim>\<open>dcg_at_k\<close> fail with
  \<^verbatim>\<open>ValueError\<close> exactly when the truncated sequence \<^verbatim>\<open>r[:k]\<close> is not empty; the
  check sits inside \<^verbatim>\<open>if r.size:\<close>, so on an empty truncated sequence the call returns
  \<^verbatim>\<open>0.0\<close> whatever the method.
\<close>

theorem dcg_at_k_bad_method:
  "method \<noteq> 0 \<and> method \<noteq> 1 \<longrightarrow>
     (py_slice r 0 k \<noteq> [] \<longrightarrow> dcg_at_k r k method = Inl ValueError)
   \<and> (py_slice r 0 k = [] \<longrightarrow> dcg_at_k r k method = Inr (PyFloat 0))"
  by (simp add: dcg_at_k_def Let_def)

theorem dcg_at_k_bad_method_witness:
  "(2::int) \<noteq> 0 \<and> (2::int) \<noteq> 1
   \<and> py_slice [3, 2 :: real] 0 1 \<noteq> [] \<and> dcg_at_k [3, 2] 1 2 = Inl ValueError
   \<and> py_slice [3, 2 :: real] 0 0 = [] \<and> dcg_at_k [3, 2] 0 2 = Inr (PyFloat 0)"
  using dcg_at_k_bad_method [of 2 "[3, 2]" 1] dcg_at_k_bad_method [of 2 "[3, 2]" 0]
  by (simp add: py_slice_def clip_index_def)

text \<open>An invalid method on an empty sequence returns a value: no error is raised.\<close>

theorem dcg_at_k_bad_method_counterexample:
  "(2 :: int) \<noteq> 0 \<and> (2 :: int) \<noteq> 1 \<and> dcg_at_k [] 5 2 = Inr (PyFloat 0)
   \<and> dcg_at_k [] 5 2 \<noteq> Inl ValueError"
  by (simp add: dcg_at_k_def py_slice_def clip_index_def)

subsection \<open>compute\_judgments\_after\_training\<close>

lemma zip_upt_nth: "(x, i) \<in> set (zip xs [0..<length xs]) \<Longrightarrow> xs ! i = x"
  by (auto simp: set_zip)

lemma argsort_sort_key_valid:
  assumes "mset zs = mset (zip xs [0..<length xs])"
  shows "mset (map snd (sort_key fst zs)) = mset [0..<length xs]"
    and "sorted (map ((!) xs) (map snd (sort_key fst zs)))"
proof -
  have "mset (sort_key fst zs) = mset (zip xs [0..<length xs])"
    using assms by (simp only: mset_sort)
  then have "mset (map snd (sort_key fst zs)) = mset (map snd (zip xs [0..<length xs]))"
    by (simp only: mset_map)
  moreover have "map snd (zip xs [0..<length xs]) = [0..<length xs]"
    by (rule map_snd_zip) simp
  ultimately show "mset (map snd (sort_key fst zs)) = mset [0..<length xs]"
    by (simp only:)
  have "set (sort_key fst zs) = set (zip xs [0..<length xs])"
    using assms by (metis set_sort mset_eq_setD)
  then have "\<forall>p \<in> set (sort_key fst zs). xs ! snd p = fst p"
    by (auto dest: zip_upt_nth)
  then have "map ((!) xs) (map snd (sort_key fst zs)) = map fst (sort_key fst zs)"
    unfolding map_map by (intro map_cong refl) simp
  moreover have "sorted (map fst (sort_key fst zs))"
    by (rule sorted_sort_key)
  ultimately show "sorted (map ((!) xs) (map snd (sort_key fst zs)))"
    by (simp only:)
qed

lemma valid_argsort_stable: "valid_argsort argsort_stable"
  unfolding valid_argsort_def argsort_stable_def
  using argsort_sort_key_valid [OF refl] by blast


lemma valid_argsortD:
  assumes "valid_argsort f"
  shows "length (f xs) = length xs" "distinct (f xs)" "set (f xs) = {0..<length xs}"
    "sorted (map ((!) xs) (f xs))"
proof -
  have m: "mset (f xs) = mset [0..<length xs]" and s: "sorted (map ((!) xs) (f xs))"
    using assms by (auto simp: valid_argsort_def)
  show "length (f xs) = length xs" using m by (metis length_upt mset_eq_length minus_nat.diff_0)
  show "distinct (f xs)" using m by (metis distinct_upt mset_eq_imp_distinct_iff)
  show "set (f xs) = {0..<length xs}" using m by (metis mset_eq_setD set_upt)
  show "sorted (map ((!) xs) (f xs))" by (rule s)
qed

lemma fold_update_zip:
  assumes "distinct idxs" "length idxs = length vals" "\<forall>i \<in> set idxs. i < length a"
  shows "length (fold (\<lambda>(i, v) a. a[i := g v]) (zip idxs vals) a) = length a
       \<and> (\<forall>p < length idxs. fold (\<lambda>(i, v) a. a[i := g v]) (zip idxs vals) a ! (idxs ! p) = g (vals ! p))
       \<and> (\<forall>j. j \<notin> set idxs \<longrightarrow> fold (\<lambda>(i, v) a. a[i := g v]) (zip idxs vals) a ! j = a ! j)"
  using assms
proof (induction idxs vals arbitrary: a rule: list_induct2')
  case (4 i idxs v vals)
  let ?a = "a[i := g v]"
  have IH: "length (fold (\<lambda>(i, v) a. a[i := g v]) (zip idxs vals) ?a) = length ?a
       \<and> (\<forall>p < length idxs. fold (\<lambda>(i, v) a. a[i := g v]) (zip idxs vals) ?a ! (idxs ! p) = g (vals ! p))
       \<and> (\<forall>j. j \<notin> set idxs \<longrightarrow> fold (\<lambda>(i, v) a. a[i := g v]) (zip idxs vals) ?a ! j = ?a ! j)"
    using 4 by (intro "4.IH") auto
  have i: "i \<notin> set idxs" "i < length a" using 4 by auto
  show ?case
  proof (intro conjI allI impI)
    show "length (fold (\<lambda>(i, v) a. a[i := g v]) (zip (i # idxs) (v # vals)) a) = length a"
      using IH by simp
  next
    fix p assume "p < length (i # idxs)"
    then show "fold (\<lambda>(i, v) a. a[i := g v]) (zip (i # idxs) (v # vals)) a ! ((i # idxs) ! p) = g ((v # vals) ! p)"
      using IH i by (cases p) auto
  next
    fix j assume "j \<notin> set (i # idxs)"
    then show "fold (\<lambda>(i, v) a. a[i := g v]) (zip (i # idxs) (v # vals)) a ! j = a ! j"
      using IH by auto
  qed
qed auto

lemma mset_of_permuted_nth:
  assumes "mset idxs = mset [0..<length r]" "\<forall>p < length idxs. r ! (idxs ! p) = g (vals ! p)"
    "length vals = length idxs"
  shows "mset r = mset (map g vals)"
proof -
  have "mset r = mset (map ((!) r) [0..<length r])" by (simp add: map_nth)
  also have "\<dots> = image_mset ((!) r) (mset idxs)" using assms(1) by simp
  also have "\<dots> = mset (map ((!) r) idxs)" by simp
  also have "map ((!) r) idxs = map g vals"
    using assms(2,3) by (intro nth_equalityI) auto
  finally show ?thesis .
qed


lemma scatter_props:
  assumes "valid_argsort f" "length y = length s"
  shows "length (scatter f s y) = length s"
    and "\<forall>p < length s. scatter f s y ! (f s ! p) = Some (astype_int (sort y ! p))"
    and "mset (scatter f s y) = mset (map (Some \<circ> astype_int) y)"
proof -
  note v = valid_argsortD [OF assms(1), of s]
  have pre: "distinct (f s)" "length (f s) = length (sort y)"
    "\<forall>i \<in> set (f s). i < length (replicate (length s) (None :: int option))"
    using v assms(2) by auto
  note fu = fold_update_zip [OF pre, where g = "\<lambda>v. Some (astype_int v)"]
  show len: "length (scatter f s y) = length s"
    using fu unfolding scatter_def by simp
  show nth: "\<forall>p < length s. scatter f s y ! (f s ! p) = Some (astype_int (sort y ! p))"
    using fu v(1) unfolding scatter_def by simp
  have a1: "mset (f s) = mset [0..<length (scatter f s y)]"
    using assms(1) len by (simp only: valid_argsort_def)
  have a2: "\<forall>p < length (f s). scatter f s y ! (f s ! p) = (Some \<circ> astype_int) (sort y ! p)"
    using nth v(1) by simp
  have a3: "length (sort y) = length (f s)"
    using pre(2) by simp
  have "mset (scatter f s y) = mset (map (Some \<circ> astype_int) (sort y))"
    by (rule mset_of_permuted_nth [OF a1 a2 a3])
  also have "\<dots> = mset (map (Some \<circ> astype_int) y)"
    by (simp only: mset_map mset_sort)
  finally show "mset (scatter f s y) = mset (map (Some \<circ> astype_int) y)" .
qed

lemma setitem_scatter:
  assumes "valid_argsort f" "length y = length s"
  shows "setitem (empty_like (f s)) (f s) (sort_values y) = Inr (scatter f s y)"
proof -
  note v = valid_argsortD [OF assms(1), of s]
  have "\<not> (\<exists>i \<in> set (f s). length (empty_like (f s)) \<le> i)"
    using v by (simp add: empty_like_def)
  moreover have "length (sort_values y) = length (f s)"
    using v assms(2) by (simp add: sort_values_def)
  ultimately show ?thesis
    using v(1) by (simp add: setitem_def scatter_def empty_like_def sort_values_def)
qed

lemma py_slice_window:
  assumes "0 \<le> e" "0 \<le> c" "e + c \<le> int (length xs)"
  shows "py_slice xs e (e + c) = take (nat c) (drop (nat e) xs)"
proof -
  have "clip_index (length xs) e = nat e" "clip_index (length xs) (e + c) = nat e + nat c"
    using assms by (auto simp: clip_index_def min_def nat_add_distrib)
  then show ?thesis by (simp add: py_slice_def)
qed

lemma judgments_loop_slices:
  assumes "valid_argsort f"
  shows "\<forall>c \<in> set cs. 0 \<le> c \<Longrightarrow> 0 \<le> e \<Longrightarrow>
     e + sum_list cs \<le> int (length P) \<Longrightarrow> e + sum_list cs \<le> int (length Z) \<Longrightarrow>
     e + sum_list cs \<le> int (length Y) \<Longrightarrow>
     judgments_loop f P Z Y e cs (m, a, b) =
       Inr (m @ map2 (scatter f) (slices (drop (nat e) P) cs) (slices (drop (nat e) Y) cs),
            a @ map2 (scatter f) (slices (drop (nat e) Z) cs) (slices (drop (nat e) Y) cs),
            b @ slices (drop (nat e) Y) cs)"
proof (induction cs arbitrary: e m a b)
  case Nil
  then show ?case by simp
next
  case (Cons c cs)
  have c: "0 \<le> c" "0 \<le> sum_list cs"
    using Cons.prems(1) by (auto intro: sum_list_nonneg)
  have sl: "py_slice P e (e + c) = take (nat c) (drop (nat e) P)"
    "py_slice Z e (e + c) = take (nat c) (drop (nat e) Z)"
    "py_slice Y e (e + c) = take (nat c) (drop (nat e) Y)"
    using Cons.prems c by (auto intro!: py_slice_window)
  have len: "length (take (nat c) (drop (nat e) P)) = nat c"
    "length (take (nat c) (drop (nat e) Z)) = nat c"
    "length (take (nat c) (drop (nat e) Y)) = nat c"
    using Cons.prems c by auto
  have s1: "setitem (empty_like (f (take (nat c) (drop (nat e) P)))) (f (take (nat c) (drop (nat e) P)))
              (sort_values (take (nat c) (drop (nat e) Y)))
            = Inr (scatter f (take (nat c) (drop (nat e) P)) (take (nat c) (drop (nat e) Y)))"
    using len by (intro setitem_scatter [OF assms]) simp
  have s2: "setitem (empty_like (f (take (nat c) (drop (nat e) Z)))) (f (take (nat c) (drop (nat e) Z)))
              (sort_values (take (nat c) (drop (nat e) Y)))
            = Inr (scatter f (take (nat c) (drop (nat e) Z)) (take (nat c) (drop (nat e) Y)))"
    using len by (intro setitem_scatter [OF assms]) simp
  have nat_ec: "nat (e + c) = nat c + nat e"
    using Cons.prems(2) c by (simp add: nat_add_distrib)
  have IH: "judgments_loop f P Z Y (e + c) cs (m', a', b') =
       Inr (m' @ map2 (scatter f) (slices (drop (nat (e + c)) P) cs) (slices (drop (nat (e + c)) Y) cs),
            a' @ map2 (scatter f) (slices (drop (nat (e + c)) Z) cs) (slices (drop (nat (e + c)) Y) cs),
            b' @ slices (drop (nat (e + c)) Y) cs)" for m' a' b'
    using Cons.prems c by (intro Cons.IH) (auto simp: algebra_simps)
  show ?case
    by (simp add: Let_def sl s1 s2 IH nat_ec)
qed

lemma compute_judgments_slices:
  assumes "valid_argsort f" "well_shaped P cs Z Y"
  shows "compute_judgments_after_training f P cs Z Y =
       Inr (map2 (scatter f) (slices P cs) (slices Y cs),
            map2 (scatter f) (slices Z cs) (slices Y cs),
            slices Y cs)"
  using judgments_loop_slices [OF assms(1), of cs 0 P Z Y "[]" "[]" "[]"] assms(2)
  by (simp add: compute_judgments_after_training_def well_shaped_def)

lemma length_slices [simp]: "length (slices xs cs) = length cs"
  by (induction cs arbitrary: xs) auto

lemma slices_lengths:
  "\<forall>c \<in> set cs. 0 \<le> c \<Longrightarrow> sum_list cs \<le> int (length xs) \<Longrightarrow>
   map (\<lambda>s. int (length s)) (slices xs cs) = cs"
proof (induction cs arbitrary: xs)
  case Nil
  then show ?case by simp
next
  case (Cons c cs)
  have "0 \<le> sum_list cs" using Cons.prems(1) by (auto intro: sum_list_nonneg)
  then show ?case using Cons.prems by (auto intro!: Cons.IH)
qed

lemma slices_nth_length:
  assumes "\<forall>c \<in> set cs. 0 \<le> c" "sum_list cs \<le> int (length xs)" "i < length cs"
  shows "int (length (slices xs cs ! i)) = cs ! i"
proof -
  have "map (\<lambda>s. int (length s)) (slices xs cs) ! i = cs ! i"
    using slices_lengths [OF assms(1,2)] by simp
  then show ?thesis using assms(3) by simp
qed




lemma slices_subset: "s \<in> set (slices xs cs) \<Longrightarrow> set s \<subseteq> set xs"
proof (induction cs arbitrary: xs)
  case Nil
  then show ?case by simp
next
  case (Cons c cs)
  then show ?case
    by (auto dest: in_set_takeD in_set_dropD)
qed

lemma trunc_toward_zero_of_int [simp]: "trunc_toward_zero (real_of_int j) = j"
  by (simp add: trunc_toward_zero_def)



lemma astype_int_range: "int64_min \<le> astype_int x \<and> astype_int x \<le> int64_max"
  by (simp add: astype_int_def int64_min_def int64_max_def)

lemma astype_int_out_of_range: "astype_int (10 ^ 19) = - 9223372036854775808"
  by (simp add: astype_int_def trunc_toward_zero_def int64_min_def int64_max_def)

lemma astype_int_not_Ints: "y \<notin> \<int> \<Longrightarrow> real_of_int (astype_int y) \<noteq> y"
  by (metis Ints_of_int)

lemma map2_scatter_nth:
  assumes "i < length cs"
  shows "map2 (scatter f) (slices P cs) (slices Y cs) ! i = scatter f (slices P cs ! i) (slices Y cs ! i)"
  using assms by simp

lemma well_shaped_slice_lengths:
  assumes "well_shaped P cs Z Y" "i < length cs"
  shows "int (length (slices P cs ! i)) = cs ! i" "int (length (slices Z cs ! i)) = cs ! i"
    "int (length (slices Y cs ! i)) = cs ! i"
  using assms by (auto simp: well_shaped_def intro!: slices_nth_length)

text \<open>
  C7. When the boundary entries (document counts, none negative) add up to the length of the
  score, secondary-score and label vectors, the call succeeds and each of the three results
  has one array per query, in the order of the boundary list, the \<open>i\<close>-th of length equal to
  the \<open>i\<close>-th boundary entry; the baseline is the list of label slices.
\<close>

theorem judgments_shape:
  assumes "valid_argsort argsort" "well_shaped predictions query_doc_counts search_score y_test"
  shows "\<exists>model_judgments azs_judgments baseline.
     compute_judgments_after_training argsort predictions query_doc_counts search_score y_test
       = Inr (model_judgments, azs_judgments, baseline)
     \<and> map (\<lambda>a. int (length a)) model_judgments = query_doc_counts
     \<and> map (\<lambda>a. int (length a)) azs_judgments = query_doc_counts
     \<and> map (\<lambda>a. int (length a)) baseline = query_doc_counts
     \<and> baseline = slices y_test query_doc_counts"
proof -
  let ?P = predictions and ?cs = query_doc_counts and ?Z = search_score and ?Y = y_test
  have len: "length (scatter argsort (slices X ?cs ! i) (slices ?Y ?cs ! i)) = length (slices ?Y ?cs ! i)"
    if "i < length ?cs" "int (length (slices X ?cs ! i)) = ?cs ! i" for X i
  proof -
    have "length (slices ?Y ?cs ! i) = length (slices X ?cs ! i)"
      using well_shaped_slice_lengths(3) [OF assms(2) that(1)] that(2) by simp
    then show ?thesis using scatter_props(1) [OF assms(1)] by simp
  qed
  have Y: "map (\<lambda>a. int (length a)) (slices ?Y ?cs) = ?cs"
    using assms(2) by (intro slices_lengths) (auto simp: well_shaped_def)
  have "map (\<lambda>a. int (length a)) (map2 (scatter argsort) (slices X ?cs) (slices ?Y ?cs)) = ?cs"
    if X: "\<And>i. i < length ?cs \<Longrightarrow> int (length (slices X ?cs ! i)) = ?cs ! i" for X
  proof (rule nth_equalityI)
    show "length (map (\<lambda>a. int (length a)) (map2 (scatter argsort) (slices X ?cs) (slices ?Y ?cs))) = length ?cs"
      by simp
  next
    fix i assume "i < length (map (\<lambda>a. int (length a)) (map2 (scatter argsort) (slices X ?cs) (slices ?Y ?cs)))"
    then have i: "i < length ?cs" by simp
    then show "map (\<lambda>a. int (length a)) (map2 (scatter argsort) (slices X ?cs) (slices ?Y ?cs)) ! i = ?cs ! i"
      using len [OF i X [OF i]] well_shaped_slice_lengths(3) [OF assms(2) i] by simp
  qed
  from this [of ?P] this [of ?Z] Y show ?thesis
    using well_shaped_slice_lengths(1,2) [OF assms(2)]
    by (simp add: compute_judgments_slices [OF assms])
qed

lemmas eval_judgments =
  compute_judgments_after_training_def Let_def py_slice_def clip_index_def
  setitem_def empty_like_def sort_values_def astype_int_def trunc_toward_zero_def
  int64_min_def int64_max_def

theorem judgments_shape_witness:
  "valid_argsort argsort_stable
   \<and> well_shaped [1, 3, 2, 5, 4] [3, 2] [3, 2, 1, 1, 1] [0, 1, 2, 1, 0]
   \<and> (\<exists>m a b.
        compute_judgments_after_training argsort_stable [1, 3, 2, 5, 4] [3, 2] [3, 2, 1, 1, 1] [0, 1, 2, 1, 0]
          = Inr (m, a, b)
        \<and> map (\<lambda>a. int (length a)) m = [3, 2]
        \<and> map (\<lambda>a. int (length a)) a = [3, 2]
        \<and> map (\<lambda>a. int (length a)) b = [3, 2]
        \<and> b = [[0, 1, 2], [1, 0]])"
proof -
  have ws: "well_shaped [1, 3, 2, 5, 4] [3, 2] [3, 2, 1, 1, 1] [0, 1, 2, 1, 0]"
    by (simp add: well_shaped_def)
  from judgments_shape [OF valid_argsort_stable ws]
  obtain m a b where r:
    "compute_judgments_after_training argsort_stable [1, 3, 2, 5, 4] [3, 2] [3, 2, 1, 1, 1] [0, 1, 2, 1, 0]
       = Inr (m, a, b)"
    "map (\<lambda>a. int (length a)) m = [3, 2]"
    "map (\<lambda>a. int (length a)) a = [3, 2]"
    "map (\<lambda>a. int (length a)) b = [3, 2]"
    "b = slices [0, 1, 2, 1, 0] [3, 2]"
    by (elim exE conjE)
  have "b = [[0, 1, 2], [1, 0]]"
    using r(5) by simp
  with r(1-4) have "\<exists>m a b.
        compute_judgments_after_training argsort_stable [1, 3, 2, 5, 4] [3, 2] [3, 2, 1, 1, 1] [0, 1, 2, 1, 0]
          = Inr (m, a, b)
        \<and> map (\<lambda>a. int (length a)) m = [3, 2]
        \<and> map (\<lambda>a. int (length a)) a = [3, 2]
        \<and> map (\<lambda>a. int (length a)) b = [3, 2]
        \<and> b = [[0, 1, 2], [1, 0]]"
    by (intro exI [of _ m] exI [of _ a] exI [of _ b] conjI)
  with ws valid_argsort_stable show ?thesis by (intro conjI)
qed



lemma fold_update_const:
  "\<forall>i \<in> set idxs. i < length a \<Longrightarrow>
   length (fold (\<lambda>i a. a[i := c]) idxs a) = length a
   \<and> (\<forall>j < length a. fold (\<lambda>i a. a[i := c]) idxs a ! j = (if j \<in> set idxs then c else a ! j))"
proof (induction idxs arbitrary: a)
  case Nil
  then show ?case by simp
next
  case (Cons i idxs)
  have "\<forall>k \<in> set idxs. k < length (a[i := c])" using Cons.prems by simp
  from Cons.IH [OF this] show ?case
    using Cons.prems by (auto simp: nth_list_update)
qed

lemma set_py_slice: "set (py_slice xs a b) \<subseteq> set xs"
  unfolding py_slice_def Let_def
  by (meson in_set_dropD in_set_takeD subsetI)

lemma setitem_elems:
  assumes "valid_argsort f" "setitem (empty_like (f s)) (f s) vals = Inr r"
  shows "set r \<subseteq> (\<lambda>v. Some (astype_int v)) ` set vals"
proof
  note v = valid_argsortD [OF assms(1), of s]
  let ?n = "length s"
  let ?g = "\<lambda>v. Some (astype_int v)"
  have bounds: "\<forall>i \<in> set (f s). i < length (replicate ?n (None :: int option))"
    using v by simp
  fix x assume "x \<in> set r"
  then obtain j where j: "j < length r" "x = r ! j"
    by (auto simp: in_set_conv_nth)
  consider (same) "length vals = length (f s)"
      "r = fold (\<lambda>(i, v) a. a[i := ?g v]) (zip (f s) vals) (replicate ?n None)"
    | (broadcast) "length vals = 1"
      "r = fold (\<lambda>i a. a[i := ?g (hd vals)]) (f s) (replicate ?n None)"
    using assms(2) v(1) by (auto simp: setitem_def empty_like_def split: if_splits)
  then show "x \<in> ?g ` set vals"
  proof cases
    case same
    have fu: "length r = ?n" "\<forall>p < length (f s). r ! (f s ! p) = ?g (vals ! p)"
      using fold_update_zip [OF v(2) same(1) [symmetric] bounds, where g = ?g] same(2) by simp_all
    have "j \<in> set (f s)" using j(1) fu(1) v(3) by simp
    then obtain p where p: "p < length (f s)" "f s ! p = j"
      by (auto simp: in_set_conv_nth)
    then have "x = ?g (vals ! p)" using fu(2) j(2) by auto
    then show ?thesis using p(1) same(1) by simp
  next
    case broadcast
    have fc: "length r = ?n" "\<forall>j < ?n. r ! j = (if j \<in> set (f s) then ?g (hd vals) else None)"
      using fold_update_const [OF bounds, of "?g (hd vals)"] broadcast(2) by simp_all
    have "j \<in> set (f s)" using j(1) fc(1) v(3) by simp
    then have "x = ?g (hd vals)" using fc j by simp
    moreover have "hd vals \<in> set vals"
      using broadcast(1) by (cases vals) auto
    ultimately show ?thesis by simp
  qed
qed

lemma judgments_loop_elems:
  assumes "valid_argsort f"
  shows "judgments_loop f P Z Y e cs (m, a, b) = Inr (m', a', b') \<Longrightarrow>
     (\<forall>x \<in> set m \<union> set a. set x \<subseteq> (\<lambda>v. Some (astype_int v)) ` set Y) \<Longrightarrow>
     (\<forall>x \<in> set b. \<exists>s t. x = py_slice Y s t) \<Longrightarrow>
     (\<forall>x \<in> set m' \<union> set a'. set x \<subseteq> (\<lambda>v. Some (astype_int v)) ` set Y)
     \<and> (\<forall>x \<in> set b'. \<exists>s t. x = py_slice Y s t)"
proof (induction cs arbitrary: e m a b)
  case Nil
  then show ?case by simp
next
  case (Cons c cs)
  let ?y = "py_slice Y e (e + c)"
  obtain j z where
    j: "setitem (empty_like (f (py_slice P e (e + c)))) (f (py_slice P e (e + c))) (sort_values ?y) = Inr j"
    and z: "setitem (empty_like (f (py_slice Z e (e + c)))) (f (py_slice Z e (e + c))) (sort_values ?y) = Inr z"
    and rest: "judgments_loop f P Z Y (e + c) cs (m @ [j], a @ [z], b @ [?y]) = Inr (m', a', b')"
    using Cons.prems(1) by (auto simp: Let_def split: sum.splits)
  have y: "set (sort_values ?y) \<subseteq> set Y"
    using set_py_slice [of Y e "e + c"] by (simp add: sort_values_def)
  have "set j \<subseteq> (\<lambda>v. Some (astype_int v)) ` set Y" "set z \<subseteq> (\<lambda>v. Some (astype_int v)) ` set Y"
    using setitem_elems [OF assms j] setitem_elems [OF assms z] y(1) by blast+
  then show ?case
    using Cons.prems(2,3) by (intro Cons.IH [OF rest]) auto
qed







text \<open>
  C9. Whenever the call returns, every element of a model or secondary judgment array is an
  int64, the conversion of one of the labels to int64 (truncation toward zero; the least
  int64 for a label outside the range), so a label that is not an integer is not preserved;
  every baseline array is a slice of the label vector, values unchanged.
\<close>

theorem judgments_integer_dtype:
  assumes "valid_argsort argsort"
    and "compute_judgments_after_training argsort predictions query_doc_counts search_score y_test
           = Inr (model_judgments, azs_judgments, baseline)"
  shows "(\<forall>a \<in> set model_judgments \<union> set azs_judgments.
            \<forall>v \<in> set a. \<exists>y \<in> set y_test. v = Some (astype_int y))
       \<and> (\<forall>b \<in> set baseline. \<exists>s t. b = py_slice y_test s t)
       \<and> (\<forall>y. int64_min \<le> astype_int y \<and> astype_int y \<le> int64_max)
       \<and> (\<forall>y. y \<notin> \<int> \<longrightarrow> real_of_int (astype_int y) \<noteq> y)"
proof -
  have "(\<forall>x \<in> set model_judgments \<union> set azs_judgments.
           set x \<subseteq> (\<lambda>v. Some (astype_int v)) ` set y_test)
     \<and> (\<forall>x \<in> set baseline. \<exists>s t. x = py_slice y_test s t)"
    using assms(2) unfolding compute_judgments_after_training_def
    by (rule judgments_loop_elems [OF assms(1)]) simp_all
  then show ?thesis
    using astype_int_not_Ints astype_int_range by blast
qed

theorem judgments_integer_dtype_witness:
  "valid_argsort argsort_stable
   \<and> compute_judgments_after_training argsort_stable [2, 1] [2] [1, 2] [5/2, - 3/2]
       = Inr ([[Some 2, Some (- 1)]], [[Some (- 1), Some 2]], [[5/2, - 3/2]])
   \<and> (\<exists>y \<in> set [5/2, - 3/2 :: real]. Some (2 :: int) = Some (astype_int y))
   \<and> (\<exists>y \<in> set [5/2, - 3/2 :: real]. Some (- 1 :: int) = Some (astype_int y))
   \<and> (\<exists>s t. [5/2, - 3/2 :: real] = py_slice [5/2, - 3/2] s t)
   \<and> (5/2 :: real) \<notin> \<int> \<and> real_of_int (astype_int (5/2)) \<noteq> 5/2
   \<and> int64_min \<le> astype_int (10 ^ 19) \<and> astype_int (10 ^ 19) \<le> int64_max
   \<and> compute_judgments_after_training argsort_stable [1] [1] [1] [10 ^ 19]
       = Inr ([[Some (- 9223372036854775808)]], [[Some (- 9223372036854775808)]], [[10 ^ 19]])"
proof -
  have ev: "compute_judgments_after_training argsort_stable [2, 1] [2] [1, 2] [5/2, - 3/2]
       = Inr ([[Some 2, Some (- 1)]], [[Some (- 1), Some 2]], [[5/2, - 3/2]])"
    by (simp add: eval_judgments argsort_stable_def)
  have big: "compute_judgments_after_training argsort_stable [1] [1] [1] [10 ^ 19]
       = Inr ([[Some (- 9223372036854775808)]], [[Some (- 9223372036854775808)]], [[10 ^ 19]])"
    by (simp add: eval_judgments argsort_stable_def)
  have ni: "(5/2 :: real) \<notin> \<int>"
  proof
    assume "(5/2 :: real) \<in> \<int>"
    then obtain j :: int where "5/2 = real_of_int j" by (auto elim: Ints_cases)
    then have "real_of_int (2 * j) = real_of_int 5" by simp
    then have "2 * j = 5" by (simp only: of_int_eq_iff)
    then show False by presburger
  qed
  note th = judgments_integer_dtype [OF valid_argsort_stable ev]
  have 1: "\<exists>y \<in> set [5/2, - 3/2 :: real]. Some (2 :: int) = Some (astype_int y)"
    "\<exists>y \<in> set [5/2, - 3/2 :: real]. Some (- 1 :: int) = Some (astype_int y)"
    using th by simp_all
  have 2: "\<exists>s t. [5/2, - 3/2 :: real] = py_slice [5/2, - 3/2] s t"
    using th by simp
  have 3: "real_of_int (astype_int (5/2)) \<noteq> 5/2"
    using th ni by blast
  have 4: "int64_min \<le> astype_int (10 ^ 19)" "astype_int (10 ^ 19) \<le> int64_max"
    using th by blast+
  from valid_argsort_stable ev 1 2 3 4 ni big show ?thesis by (intro conjI)
qed

subsection \<open>Gain functions and their average\<close>

lemma sum_list_divide:
  "length ys = length xs \<Longrightarrow> sum_list (divide xs ys) = (\<Sum>j < length xs. xs ! j / ys ! j)"
  unfolding divide_def
  by (simp add: sum_list_sum_nth atLeast0LessThan)

lemma length_arange: "length (arange a b) = b - a"
  by (simp add: arange_def)

lemma nth_arange: "i < b - a \<Longrightarrow> arange a b ! i = real (a + i)"
  unfolding arange_def by (simp only: nth_map length_upt nth_upt less_diff_conv add.commute)

lemma dcg_method0_sum:
  assumes "t \<noteq> []"
  shows "sum_list (divide (tl t) (map log2 (arange 2 (length t + 1))))
       = (\<Sum>i = 2..length t. t ! (i - 1) / log 2 (real i))"
proof -
  obtain n where n: "length t = Suc n"
    using assms by (cases t) auto
  have "sum_list (divide (tl t) (map log2 (arange 2 (length t + 1))))
      = (\<Sum>j < length (tl t). tl t ! j / map log2 (arange 2 (length t + 1)) ! j)"
    by (rule sum_list_divide) (simp add: length_arange n)
  also have "\<dots> = (\<Sum>j < n. t ! Suc j / log 2 (real (Suc (Suc j))))"
    by (intro sum.cong) (auto simp: length_arange nth_arange log2_def nth_tl n)
  also have "\<dots> = (\<Sum>i = Suc 0..n. t ! i / log 2 (real (Suc i)))"
    by (simp only: sum.atLeast1_atMost_eq)
  also have "\<dots> = (\<Sum>i = Suc (Suc 0)..Suc n. t ! (i - 1) / log 2 (real i))"
    by (simp only: sum.shift_bounds_cl_Suc_ivl diff_Suc_1)
  finally show ?thesis
    by (simp only: n numeral_2_eq_2)
qed

lemma dcg_method1_sum:
  "sum_list (divide t (map log2 (arange 2 (length t + 2))))
     = (\<Sum>i = 1..length t. t ! (i - 1) / log 2 (real i + 1))"
proof -
  have "sum_list (divide t (map log2 (arange 2 (length t + 2))))
      = (\<Sum>j < length t. t ! j / map log2 (arange 2 (length t + 2)) ! j)"
    by (rule sum_list_divide) (simp add: length_arange)
  also have "\<dots> = (\<Sum>j < length t. t ! (Suc j - 1) / log 2 (real (Suc j) + 1))"
    by (intro sum.cong) (auto simp: length_arange nth_arange log2_def add.commute)
  also have "\<dots> = (\<Sum>i = Suc 0..length t. t ! (i - 1) / log 2 (real i + 1))"
    by (simp only: sum.atLeast1_atMost_eq)
  finally show ?thesis by simp
qed

lemma dcg_at_k_refines:
  assumes "0 \<le> k" "method = 0 \<or> method = 1"
  shows "dcg_at_k r k method =
     Inr (if take (nat k) r = [] then PyFloat 0 else NpFloat (dcg_spec r (nat k) method))"
proof (cases "take (nat k) r = []")
  case True
  then show ?thesis using assms(1) by (simp add: dcg_at_k_def py_slice_0)
next
  case False
  then have hd: "hd (take (nat k) r) = take (nat k) r ! 0"
    by (simp add: hd_conv_nth)
  have "dcg_at_k r k method =
      (if method = 0 then
         Inr (NpFloat (hd (take (nat k) r)
           + sum_list (divide (tl (take (nat k) r)) (map log2 (arange 2 (length (take (nat k) r) + 1))))))
       else Inr (NpFloat (sum_list (divide (take (nat k) r)
              (map log2 (arange 2 (length (take (nat k) r) + 2)))))))"
    using assms False unfolding dcg_at_k_def Let_def py_slice_0 [OF assms(1)] by auto
  also have "\<dots> = Inr (NpFloat (dcg_spec r (nat k) method))"
    using False unfolding dcg_spec_def Let_def dcg_method0_sum [OF False] dcg_method1_sum hd
    by simp
  finally show ?thesis using False by simp
qed

lemma dcg_at_k_cases:
  assumes "method = 0 \<or> method = 1"
  shows "dcg_at_k r k method = Inr (PyFloat 0) \<or> (\<exists>x. dcg_at_k r k method = Inr (NpFloat x))"
  using assms by (auto simp: dcg_at_k_def Let_def)

lemma truediv_numpy:
  "x \<noteq> 0 \<Longrightarrow> d = PyFloat 0 \<or> (\<exists>y. d = NpFloat y) \<Longrightarrow>
   truediv d (NpFloat x) = Inr (NpFloat (fin d / x))"
  by (auto simp: truediv_def)

lemma ndcg_at_k_quotient:
  assumes "method = 0 \<or> method = 1"
  shows "\<exists>d dmax. dcg_at_k r k method = Inr d \<and> dcg_at_k (sorted_reverse r) k method = Inr dmax
     \<and> is_finite d \<and> is_finite dmax
     \<and> ndcg_at_k r k method =
         (if fin dmax = 0 then Inr (PyFloat 0) else Inr (NpFloat (fin d / fin dmax)))"
proof -
  from dcg_at_k_cases [OF assms, of r k] obtain d
    where d: "dcg_at_k r k method = Inr d" and d': "d = PyFloat 0 \<or> (\<exists>x. d = NpFloat x)"
    by blast
  from dcg_at_k_cases [OF assms, of "sorted_reverse r" k] obtain dmax
    where m: "dcg_at_k (sorted_reverse r) k method = Inr dmax"
      and m': "dmax = PyFloat 0 \<or> (\<exists>x. dmax = NpFloat x)"
    by blast
  have fd: "is_finite d" using d' by (elim disjE exE) simp_all
  have fm: "is_finite dmax" using m' by (elim disjE exE) simp_all
  have "ndcg_at_k r k method =
         (if fin dmax = 0 then Inr (PyFloat 0) else Inr (NpFloat (fin d / fin dmax)))"
  proof (cases "fin dmax = 0")
    case True
    then have "\<not> truthy dmax" using m' by (elim disjE exE) simp_all
    then show ?thesis using True by (simp add: ndcg_at_k_def m)
  next
    case False
    then obtain x where x: "dmax = NpFloat x" "x \<noteq> 0"
      using m' by (elim disjE exE) simp_all
    show ?thesis
      using False x truediv_numpy [OF x(2) d'] by (simp add: ndcg_at_k_def m d)
  qed
  with d m fd fm show ?thesis by blast
qed

lemma sorted_reverse_id: "sorted (rev r) \<Longrightarrow> sorted_reverse r = r"
proof -
  assume s: "sorted (rev r)"
  have "sort r = rev r"
    by (rule properties_for_sort) (simp_all add: s)
  then show ?thesis by (simp add: sorted_reverse_def)
qed

lemma ndcg_at_k_sorted_desc:
  assumes "method = 0 \<or> method = 1" "sorted (rev r)"
    and "dcg_at_k (sorted_reverse r) k method = Inr dmax" "truthy dmax"
  shows "ndcg_at_k r k method = Inr (NpFloat 1)"
proof -
  from dcg_at_k_cases [OF assms(1), of "sorted_reverse r" k] assms(3)
  have "dmax = PyFloat 0 \<or> (\<exists>x. dmax = NpFloat x)" by simp
  with assms(4) obtain x where x: "dmax = NpFloat x" "x \<noteq> 0"
    by (elim disjE exE) simp_all
  have same: "dcg_at_k r k method = Inr (NpFloat x)"
    using assms(3) x(1) by (simp only: sorted_reverse_id [OF assms(2)])
  have "truediv (NpFloat x) (NpFloat x) = Inr (NpFloat 1)"
    using x(2) by (simp add: truediv_def)
  then show ?thesis
    using x by (simp add: ndcg_at_k_def assms(3) same)
qed

lemma ndcg_default: "ndcg_at_k r k 0 = Inr (nd r k)"
proof -
  have z: "(0 :: int) = 0 \<or> (0 :: int) = 1" by simp
  from ndcg_at_k_quotient [OF z, of r k] obtain d dmax where
    m: "dcg_at_k (sorted_reverse r) k 0 = Inr dmax" and
    q: "ndcg_at_k r k 0 = (if fin dmax = 0 then Inr (PyFloat 0) else Inr (NpFloat (fin d / fin dmax)))"
    by blast
  from dcg_at_k_cases [OF z, of "sorted_reverse r" k] m
  have m': "dmax = PyFloat 0 \<or> (\<exists>x. dmax = NpFloat x)" by simp
  have iz: "ideal_zero r k \<longleftrightarrow> fin dmax = 0"
    using m' by (elim disjE exE) (simp_all add: ideal_zero_def m)
  show ?thesis
  proof (cases "fin dmax = 0")
    case True
    then show ?thesis using q iz by (simp add: nd_def)
  next
    case False
    then have "ndcg_at_k r k 0 = Inr (NpFloat (fin d / fin dmax))" using q by simp
    then show ?thesis using False iz by (simp add: nd_def ndcg_val_def)
  qed
qed

lemma nd_truthy: "truthy (nd r k) \<longleftrightarrow> ndcg_val r k \<noteq> 0"
proof (cases "ideal_zero r k")
  case True
  then have "ndcg_at_k r k 0 = Inr (PyFloat 0)" by (simp add: ndcg_default nd_def)
  then have "ndcg_val r k = 0" by (simp add: ndcg_val_def)
  then show ?thesis using True by (simp add: nd_def)
next
  case False
  then show ?thesis by (simp add: nd_def)
qed

lemma nd_fin: "fin (nd r k) = ndcg_val r k"
  by (simp add: ndcg_val_def ndcg_default)

lemma nd_numpy: "is_numpy (nd r k) \<longleftrightarrow> \<not> ideal_zero r k"
  by (simp add: nd_def)

lemma nd_finite: "is_finite (nd r k)"
  by (simp add: nd_def)

lemma add_finite:
  assumes "is_finite a" "is_finite b" "\<not> (\<exists>i. b = PyInt i)"
  shows "is_finite (add a b) \<and> fin (add a b) = fin a + fin b
       \<and> (is_numpy (add a b) \<longleftrightarrow> is_numpy a \<or> is_numpy b)
       \<and> \<not> (\<exists>i. add a b = PyInt i)"
  using assms by (cases a; cases b) simp_all

lemma ndcg_inner_result:
  "\<exists>s. ndcg_inner ndcgs k (c, s0) = Inr (c + int (nonzero_count ndcgs k), s)
     \<and> (is_finite s0 \<longrightarrow>
          is_finite s \<and> fin s = fin s0 + sum_list (map (\<lambda>r. ndcg_val r k) ndcgs)
        \<and> (is_numpy s \<longleftrightarrow> is_numpy s0 \<or> (\<exists>r \<in> set ndcgs. \<not> ideal_zero r k))
        \<and> (ndcgs \<noteq> [] \<longrightarrow> \<not> (\<exists>i. s = PyInt i)))"
proof (induction ndcgs arbitrary: c s0)
  case Nil
  then show ?case by (simp add: nonzero_count_def)
next
  case (Cons r rest)
  let ?c = "if truthy (nd r k) then c + 1 else c"
  from Cons.IH [of ?c "add s0 (nd r k)"] obtain s where
    s: "ndcg_inner rest k (?c, add s0 (nd r k)) = Inr (?c + int (nonzero_count rest k), s)"
    and fs: "is_finite (add s0 (nd r k)) \<longrightarrow>
          is_finite s \<and> fin s = fin (add s0 (nd r k)) + sum_list (map (\<lambda>r. ndcg_val r k) rest)
        \<and> (is_numpy s \<longleftrightarrow> is_numpy (add s0 (nd r k)) \<or> (\<exists>r \<in> set rest. \<not> ideal_zero r k))
        \<and> (rest \<noteq> [] \<longrightarrow> \<not> (\<exists>i. s = PyInt i))"
    by blast
  have cnt: "?c + int (nonzero_count rest k) = c + int (nonzero_count (r # rest) k)"
    by (simp add: nonzero_count_def nd_truthy)
  have run: "ndcg_inner (r # rest) k (c, s0) = Inr (c + int (nonzero_count (r # rest) k), s)"
    using s cnt by (simp add: ndcg_default)
  have "is_finite s \<and> fin s = fin s0 + sum_list (map (\<lambda>r. ndcg_val r k) (r # rest))
        \<and> (is_numpy s \<longleftrightarrow> is_numpy s0 \<or> (\<exists>r \<in> set (r # rest). \<not> ideal_zero r k))
        \<and> \<not> (\<exists>i. s = PyInt i)" if f0: "is_finite s0"
  proof -
    have np: "\<not> (\<exists>i. nd r k = PyInt i)" by (simp add: nd_def)
    note a = add_finite [OF f0 nd_finite np]
    have "rest = [] \<Longrightarrow> s = add s0 (nd r k)" using s by simp
    then have "\<not> (\<exists>i. s = PyInt i)" using a fs by (cases "rest = []") auto
    then show ?thesis using a fs by (auto simp: nd_fin nd_numpy)
  qed
  with run show ?case by auto
qed

lemma ideal_zero_val: "ideal_zero r k \<Longrightarrow> ndcg_val r k = 0"
  using nd_truthy [of r k] by (simp add: nd_def)

lemma nonzero_count_0: "nonzero_count ndcgs k = 0 \<longleftrightarrow> (\<forall>r \<in> set ndcgs. ndcg_val r k = 0)"
  by (auto simp: nonzero_count_def filter_empty_conv)

lemma sum_list_all_zero: "(\<forall>x \<in> set xs. f x = (0 :: real)) \<Longrightarrow> sum_list (map f xs) = 0"
  by (induction xs) auto

lemma ndcg_step:
  "(case ndcg_inner ndcgs k (0, PyInt 0) of
      Inl e \<Rightarrow> Inl e
    | Inr (cnt, ndcg_sum) \<Rightarrow> truediv ndcg_sum (PyInt cnt))
   = (if all_ideal_zero ndcgs k then Inl ZeroDivisionError else Inr (range_value ndcgs k))"
proof -
  from ndcg_inner_result [of ndcgs k 0 "PyInt 0"] obtain s where
    run: "ndcg_inner ndcgs k (0, PyInt 0) = Inr (int (nonzero_count ndcgs k), s)"
    and fs: "is_finite s" "fin s = sum_list (map (\<lambda>r. ndcg_val r k) ndcgs)"
      "is_numpy s \<longleftrightarrow> (\<exists>r \<in> set ndcgs. \<not> ideal_zero r k)"
    by auto
  have np: "is_numpy s \<longleftrightarrow> \<not> all_ideal_zero ndcgs k"
    using fs(3) by (simp add: all_ideal_zero_def list_all_iff)
  show ?thesis
  proof (cases "all_ideal_zero ndcgs k")
    case True
    then have "\<forall>r \<in> set ndcgs. ndcg_val r k = 0"
      by (simp add: all_ideal_zero_def list_all_iff ideal_zero_val)
    then have "nonzero_count ndcgs k = 0" by (simp add: nonzero_count_0)
    then show ?thesis using True np by (simp add: run truediv_def)
  next
    case False
    show ?thesis
    proof (cases "nonzero_count ndcgs k = 0")
      case True
      then have "\<forall>r \<in> set ndcgs. ndcg_val r k = 0" by (simp add: nonzero_count_0)
      then have "fin s = 0" using fs(2) by (simp add: sum_list_all_zero)
      then show ?thesis using False True np by (simp add: run truediv_def range_value_def)
    next
      case nz: False
      then show ?thesis
        using False np fs(2) by (simp add: run truediv_def range_value_def mean_nonzero_def)
    qed
  qed
qed

lemma ndcg_outer_result:
  "ndcg_outer ndcgs ks results =
     (if \<exists>k \<in> set ks. all_ideal_zero ndcgs k then Inl ZeroDivisionError
      else Inr (results @ map (range_value ndcgs) ks))"
proof (induction ks arbitrary: results)
  case Nil
  then show ?case by simp
next
  case (Cons k ks)
  have "ndcg_outer ndcgs (k # ks) results =
      (case (case ndcg_inner ndcgs k (0, PyInt 0) of
               Inl e \<Rightarrow> Inl e
             | Inr (cnt, ndcg_sum) \<Rightarrow> truediv ndcg_sum (PyInt cnt)) of
         Inl e \<Rightarrow> Inl e
       | Inr q \<Rightarrow> ndcg_outer ndcgs ks (results @ [q]))"
    by (simp split: sum.splits prod.splits)
  also have "\<dots> =
      (if all_ideal_zero ndcgs k then Inl ZeroDivisionError
       else ndcg_outer ndcgs ks (results @ [range_value ndcgs k]))"
    by (simp only: ndcg_step) simp
  finally show ?case by (simp add: Cons.IH)
qed

lemma set_py_range: "set (py_range a b) = {a..<b}"
  by (auto simp: py_range_def)

text \<open>
  C4 (as the code has it). \<^verbatim>\<open>get_range_ndcg\<close> gives one value per cutoff \<open>k\<close> of
  \<^verbatim>\<open>range(k_start, k_end)\<close>: the sum of the NDCGs at \<open>k\<close> divided by the number of sequences
  whose NDCG at \<open>k\<close> is not zero. When that number is zero at some \<open>k\<close>, the call fails with
  \<^verbatim>\<open>ZeroDivisionError\<close> if every sequence has a zero ideal DCG at \<open>k\<close> (or there is no
  sequence): then the sum is a Python number. If some sequence has a non-zero ideal DCG but
  a zero DCG, the sum is a \<^verbatim>\<open>numpy.float64\<close> zero, and the entry for \<open>k\<close> is \<^verbatim>\<open>nan\<close>.
\<close>

theorem get_range_ndcg_mean:
  "get_range_ndcg ndcgs k_start k_end =
     (if \<exists>k \<in> set (py_range k_start k_end). all_ideal_zero ndcgs k then Inl ZeroDivisionError
      else Inr (map (\<lambda>k. if nonzero_count ndcgs k = 0 then NpNaN
                          else NpFloat (mean_nonzero ndcgs k)) (py_range k_start k_end)))
   \<and> ((\<forall>k \<in> set (py_range k_start k_end). nonzero_count ndcgs k \<noteq> 0) \<longrightarrow>
        get_range_ndcg ndcgs k_start k_end =
          Inr (map (\<lambda>k. NpFloat (mean_nonzero ndcgs k)) (py_range k_start k_end)))"
proof -
  have eq: "get_range_ndcg ndcgs k_start k_end =
     (if \<exists>k \<in> set (py_range k_start k_end). all_ideal_zero ndcgs k then Inl ZeroDivisionError
      else Inr (map (\<lambda>k. if nonzero_count ndcgs k = 0 then NpNaN
                          else NpFloat (mean_nonzero ndcgs k)) (py_range k_start k_end)))"
    unfolding get_range_ndcg_def ndcg_outer_result range_value_def by simp
  have "get_range_ndcg ndcgs k_start k_end =
          Inr (map (\<lambda>k. NpFloat (mean_nonzero ndcgs k)) (py_range k_start k_end))"
    if nz: "\<forall>k \<in> set (py_range k_start k_end). nonzero_count ndcgs k \<noteq> 0"
  proof -
    have "\<not> all_ideal_zero ndcgs k" if "k \<in> set (py_range k_start k_end)" for k
      using nz that by (auto simp: nonzero_count_0 all_ideal_zero_def list_all_iff dest: ideal_zero_val)
    moreover have "map (\<lambda>k. if nonzero_count ndcgs k = 0 then NpNaN
                          else NpFloat (mean_nonzero ndcgs k)) (py_range k_start k_end)
          = map (\<lambda>k. NpFloat (mean_nonzero ndcgs k)) (py_range k_start k_end)"
      using nz by (intro map_cong refl) simp
    ultimately show ?thesis using eq by auto
  qed
  with eq show ?thesis by blast
qed

lemmas eval_dcg =
  dcg_at_k_def ndcg_at_k_def py_slice_def clip_index_def Let_def divide_def arange_def log2_def
  sorted_reverse_def truediv_def

lemmas eval_range =
  eval_dcg py_range_def all_ideal_zero_def ideal_zero_def nonzero_count_def mean_nonzero_def
  ndcg_val_def

theorem get_range_ndcg_mean_witness:
  "get_range_ndcg [[0, 0], [1, 0], [0, 1]] 1 3 = Inr [NpFloat 1, NpFloat 1]
   \<and> nonzero_count [[0, 0], [1, 0], [0, 1]] 1 = 1
   \<and> nonzero_count [[0, 0], [1, 0], [0, 1]] 2 = 2
   \<and> get_range_ndcg [[0, 0], [0]] 1 3 = Inl ZeroDivisionError"
proof -
  have r: "py_range 1 3 = [1, 2]"
    by (simp add: py_range_def upto.simps)
  have n: "nonzero_count [[0, 0], [1, 0], [0, 1]] 1 = 1" "nonzero_count [[0, 0], [1, 0], [0, 1]] 2 = 2"
    by (simp_all add: eval_range)
  have m: "mean_nonzero [[0, 0], [1, 0], [0, 1]] 1 = 1" "mean_nonzero [[0, 0], [1, 0], [0, 1]] 2 = 1"
    by (simp_all add: eval_range)
  have z: "\<not> all_ideal_zero [[0, 0], [1, 0], [0, 1]] 1" "\<not> all_ideal_zero [[0, 0], [1, 0], [0, 1]] 2"
    "all_ideal_zero [[0, 0], [0]] 1"
    by (simp_all add: eval_range)
  have "get_range_ndcg [[0, 0], [1, 0], [0, 1]] 1 3 = Inr [NpFloat 1, NpFloat 1]"
    using get_range_ndcg_mean [of "[[0, 0], [1, 0], [0, 1]]" 1 3] n m z by (simp add: r)
  moreover have "get_range_ndcg [[0, 0], [0]] 1 3 = Inl ZeroDivisionError"
    using get_range_ndcg_mean [of "[[0, 0], [0]]" 1 3] z by (simp add: r)
  ultimately show ?thesis using n by simp
qed

text \<open>The sequence \<open>[0, 1]\<close> has NDCG 0 at \<open>k = 1\<close> with ideal DCG 1: the result is
  \<^verbatim>\<open>[nan]\<close>, not an error.\<close>

theorem get_range_ndcg_mean_counterexample:
  "ndcg_at_k [0, 1] 1 0 = Inr (NpFloat 0)
   \<and> py_range 1 2 = [1]
   \<and> get_range_ndcg [[0, 1]] 1 2 = Inr [NpNaN]
   \<and> get_range_ndcg [[0, 1]] 1 2 \<noteq> Inl ZeroDivisionError"
  by (simp add: eval_dcg get_range_ndcg_def py_range_def upto.simps)

text \<open>
  C10. For a sequence already in descending order and a method 0 or 1, if the ideal DCG at
  \<open>k\<close> is not zero then \<^verbatim>\<open>ndcg_at_k\<close> returns exactly 1.
\<close>

theorem ndcg_at_k_sorted_is_one:
  assumes "method = 0 \<or> method = 1" "sorted (rev r)"
    and "dcg_at_k (sorted_reverse r) k method = Inr dcg_max" "truthy dcg_max"
  shows "ndcg_at_k r k method = Inr (NpFloat 1)"
  using assms by (rule ndcg_at_k_sorted_desc)

theorem ndcg_at_k_sorted_is_one_witness:
  "((0 :: int) = 0 \<or> (0 :: int) = 1) \<and> sorted (rev [3, 2, 2, 0 :: real])
   \<and> dcg_at_k (sorted_reverse [3, 2, 2, 0]) 2 0 = Inr (NpFloat 5) \<and> truthy (NpFloat 5)
   \<and> ndcg_at_k [3, 2, 2, 0] 2 0 = Inr (NpFloat 1)"
proof -
  have m: "(0 :: int) = 0 \<or> (0 :: int) = 1" by simp
  have s: "sorted (rev [3, 2, 2, 0 :: real])" by simp
  have d: "dcg_at_k (sorted_reverse [3, 2, 2, 0]) 2 0 = Inr (NpFloat 5)"
    by (simp add: eval_dcg)
  have t: "truthy (NpFloat 5)" by simp
  from ndcg_at_k_sorted_is_one [OF m s d t] m s d t show ?thesis by (intro conjI)
qed

subsection \<open>Numeric examples of the gain functions\<close>

lemma horner_sum:
  "horner (map real [Suc k..<Suc (k + n)]) x = (\<Sum>m<n. x ^ m * fact k / fact (k + m))"
proof (induction n arbitrary: k)
  case 0
  then show ?case by simp
next
  case (Suc n)
  have step: "x / real (Suc k) * (x ^ m * fact (Suc k) / fact (Suc k + m))
      = x ^ Suc m * fact k / fact (k + Suc m)" for m
  proof -
    have "(fact (Suc k) :: real) = real (Suc k) * fact k" by simp
    moreover have "Suc k + m = k + Suc m" by simp
    moreover have "real (Suc k) \<noteq> 0" by simp
    ultimately show ?thesis
      by (simp only: power_Suc times_divide_eq_right times_divide_eq_left
            nonzero_mult_divide_mult_cancel_left mult.assoc mult.left_commute
            nonzero_mult_div_cancel_left divide_divide_eq_left)
         (simp add: field_simps del: fact_Suc of_nat_Suc)
  qed
  have "[Suc k..<Suc (k + Suc n)] = Suc k # [Suc (Suc k)..<Suc (Suc k + n)]"
    by (simp add: upt_conv_Cons)
  then have "horner (map real [Suc k..<Suc (k + Suc n)]) x
      = 1 + x / real (Suc k) * horner (map real [Suc (Suc k)..<Suc (Suc k + n)]) x"
    by (simp only: list.map horner.simps)
  also have "\<dots> = 1 + x / real (Suc k) * (\<Sum>m<n. x ^ m * fact (Suc k) / fact (Suc k + m))"
    by (simp only: Suc.IH)
  also have "x / real (Suc k) * (\<Sum>m<n. x ^ m * fact (Suc k) / fact (Suc k + m))
      = (\<Sum>m<n. x ^ Suc m * fact k / fact (k + Suc m))"
    unfolding sum_distrib_left by (intro sum.cong refl step)
  also have "1 + (\<Sum>m<n. x ^ Suc m * fact k / fact (k + Suc m))
      = (\<Sum>m<Suc n. x ^ m * fact k / fact (k + m))"
    by (subst sum.lessThan_Suc_shift) simp
  finally show ?case .
qed

lemma exp_poly_sum: "exp_poly n x = (\<Sum>m<n. x ^ m / fact m)"
  unfolding exp_poly_def horner_sum by simp

lemma exp_ge_poly:
  assumes "0 \<le> x"
  shows "exp_poly n x \<le> exp x"
proof -
  from Maclaurin_exp_le [of x n] obtain t where
    "exp x = (\<Sum>m<n. x ^ m / fact m) + exp t / fact n * x ^ n" by blast
  moreover have "0 \<le> exp t / fact n * x ^ n"
    using assms by simp
  ultimately show ?thesis by (simp add: exp_poly_sum)
qed

lemma exp_le_poly:
  assumes "0 \<le> x" "x \<le> 1"
  shows "exp x \<le> exp_poly n x + 3 / fact n"
proof -
  from Maclaurin_exp_le [of x n] obtain t where
    t: "\<bar>t\<bar> \<le> \<bar>x\<bar>" "exp x = (\<Sum>m<n. x ^ m / fact m) + exp t / fact n * x ^ n" by blast
  have "exp t \<le> exp 1" using t(1) assms by simp
  also have "\<dots> \<le> 3" by (rule exp_le)
  finally have "exp t / fact n * x ^ n \<le> 3 / fact n * 1"
    using assms by (intro mult_mono divide_right_mono power_le_one) simp_all
  then show ?thesis using t(2) by (simp add: exp_poly_sum)
qed

lemma ln_le_by_poly:
  assumes "0 < y" "0 \<le> b" "y \<le> exp_poly n b"
  shows "ln y \<le> b"
proof -
  have "y \<le> exp b" using assms(3) exp_ge_poly [OF assms(2), of n] by simp
  then have "ln y \<le> ln (exp b)" using assms(1) by (intro ln_mono) simp_all
  then show ?thesis by simp
qed

lemma ln_ge_by_poly:
  assumes "0 \<le> a" "a \<le> 1" "exp_poly n a + 3 / fact n \<le> y"
  shows "a \<le> ln y"
proof -
  have "exp a \<le> y" using assms(3) exp_le_poly [OF assms(1,2), of n] by simp
  then have "ln (exp a) \<le> ln y" by (intro ln_mono) simp_all
  then show ?thesis by simp
qed

lemma exp_poly_16: "exp_poly 16 x = horner [1, 2, 3, 4, 5, 6, 7, 8, 9, 10, 11, 12, 13, 14, 15, 16] x"
proof -
  have "[Suc 0..<Suc (0 + 16)] = [1, 2, 3, 4, 5, 6, 7, 8, 9, 10, 11, 12, 13, 14, 15, 16]"
    by (simp add: upt_conv_Cons)
  then show ?thesis unfolding exp_poly_def by (simp del: horner.simps)
qed

lemma fact_16: "fact 16 = (20922789888000 :: real)"
  by (simp add: fact_numeral)

lemma ln_2_bounds: "346573590279/500000000000 \<le> ln (2 :: real)" "ln (2 :: real) \<le> 693147180561/1000000000000"
proof -
  show "346573590279/500000000000 \<le> ln (2 :: real)"
    by (rule ln_ge_by_poly [where n = 16]) (simp_all add: exp_poly_16 fact_16)
  show "ln (2 :: real) \<le> 693147180561/1000000000000"
    by (rule ln_le_by_poly [where n = 16]) (simp_all add: exp_poly_16 fact_16)
qed

lemma ln_3_2_bounds:
  "405465108107/1000000000000 \<le> ln (3/2 :: real)" "ln (3/2 :: real) \<le> 40546510811/100000000000"
proof -
  show "405465108107/1000000000000 \<le> ln (3/2 :: real)"
    by (rule ln_ge_by_poly [where n = 16]) (simp_all add: exp_poly_16 fact_16)
  show "ln (3/2 :: real) \<le> 40546510811/100000000000"
    by (rule ln_le_by_poly [where n = 16]) (simp_all add: exp_poly_16)
qed

lemma ln_8_7_bounds:
  "133531392623/1000000000000 \<le> ln (8/7 :: real)" "ln (8/7 :: real) \<le> 66765696313/500000000000"
proof -
  show "133531392623/1000000000000 \<le> ln (8/7 :: real)"
    by (rule ln_ge_by_poly [where n = 16]) (simp_all add: exp_poly_16 fact_16)
  show "ln (8/7 :: real) \<le> 66765696313/500000000000"
    by (rule ln_le_by_poly [where n = 16]) (simp_all add: exp_poly_16)
qed

lemma log2_3_eq: "log 2 3 = 1 + ln (3/2) / ln (2 :: real)"
proof -
  have "ln (3 :: real) = ln (2 * (3/2))" by simp
  also have "\<dots> = ln 2 + ln (3/2)" by (rule ln_mult_pos) simp_all
  finally show ?thesis by (simp add: log_def add_divide_distrib)
qed

lemma log2_7_eq: "log 2 7 = 3 - ln (8/7) / ln (2 :: real)"
proof -
  have "ln (8 :: real) = ln (2 ^ 3)" by simp
  also have "\<dots> = 3 * ln 2" by (simp only: ln_realpow of_nat_numeral)
  finally have 8: "ln (8 :: real) = 3 * ln 2" .
  have "ln (8 :: real) = ln (7 * (8/7))" by simp
  also have "\<dots> = ln 7 + ln (8/7)" by (rule ln_mult_pos) simp_all
  finally have "ln (7 :: real) = 3 * ln 2 - ln (8/7)" using 8 by simp
  then show ?thesis by (simp add: log_def diff_divide_distrib)
qed

lemma log2_3_bounds:
  "158496250071/100000000000 \<le> log 2 3" "log 2 3 \<le> 158496250073/100000000000"
proof -
  note v = ln_2_bounds and u = ln_3_2_bounds
  have vpos: "0 < ln (2 :: real)" by simp
  have "(405465108107/1000000000000) / (693147180561/1000000000000) \<le> ln (3/2) / ln (2 :: real)"
    using u(1) v(2) vpos by (intro frac_le) simp_all
  then show "158496250071/100000000000 \<le> log 2 3"
    unfolding log2_3_eq by simp
  have "ln (3/2) / ln (2 :: real) \<le> (40546510811/100000000000) / (346573590279/500000000000)"
    using u(2) v(1) by (intro frac_le) simp_all
  then show "log 2 3 \<le> 158496250073/100000000000"
    unfolding log2_3_eq by simp
qed

lemma log2_7_bounds:
  "280735492205/100000000000 \<le> log 2 7" "log 2 7 \<le> 280735492207/100000000000"
proof -
  note v = ln_2_bounds and w = ln_8_7_bounds
  have vpos: "0 < ln (2 :: real)" by simp
  have "ln (8/7) / ln (2 :: real) \<le> (66765696313/500000000000) / (346573590279/500000000000)"
    using w(2) v(1) by (intro frac_le) simp_all
  then show "280735492205/100000000000 \<le> log 2 7"
    unfolding log2_7_eq by simp
  have "(133531392623/1000000000000) / (693147180561/1000000000000) \<le> ln (8/7) / ln (2 :: real)"
    using w(1) v(2) vpos by (intro frac_le) simp_all
  then show "log 2 7 \<le> 280735492207/100000000000"
    unfolding log2_7_eq by simp
qed

lemma log2_values:
  "log 2 (4 :: real) = 2" "log 2 (8 :: real) = 3"
  "log 2 (6 :: real) = 1 + log 2 3" "log 2 (9 :: real) = 2 * log 2 3"
proof -
  have "log 2 ((2 :: real) ^ 2) = real 2 * log 2 2" by (rule log_nat_power) simp
  then show "log 2 (4 :: real) = 2" by simp
  have "log 2 ((2 :: real) ^ 3) = real 3 * log 2 2" by (rule log_nat_power) simp
  then show "log 2 (8 :: real) = 3" by simp
  have "log 2 (2 * 3 :: real) = log 2 2 + log 2 3"
    by (rule log_mult_pos) simp_all
  then show "log 2 (6 :: real) = 1 + log 2 3" by simp
  have "log 2 ((3 :: real) ^ 2) = real 2 * log 2 3" by (rule log_nat_power) simp
  then show "log 2 (9 :: real) = 2 * log 2 3" by simp
qed

lemma dcg_example_10:
  "dcg_at_k [3, 2, 3, 0, 0, 1, 2, 2, 3, 0] 10 0
     = Inr (NpFloat (17/3 + 9 / (2 * log 2 3) + 1 / (1 + log 2 3) + 2 / log 2 7))"
  by (simp add: eval_dcg log2_values)

lemma dcg_example_10_value:
  "\<bar>17/3 + 9 / (2 * log 2 3) + 1 / (1 + log 2 3) + 2 / log 2 7 - 960511773/100000000\<bar>
     < 1 / 100000000"
proof -
  let ?L = "log 2 3 :: real" and ?M = "log 2 7 :: real"
  note L = log2_3_bounds and M = log2_7_bounds
  define a b c where "a = 9 / (2 * ?L)" and "b = 1 / (1 + ?L)" and "c = 2 / ?M"
  have up: "a \<le> 9 / (2 * (158496250071/100000000000))"
    "b \<le> 1 / (1 + 158496250071/100000000000)"
    "c \<le> 2 / (280735492205/100000000000)"
    unfolding a_def b_def c_def using L(1) M(1) by (intro divide_left_mono; simp)+
  have lo: "9 / (2 * (158496250073/100000000000)) \<le> a"
    "1 / (1 + 158496250073/100000000000) \<le> b"
    "2 / (280735492207/100000000000) \<le> c"
    unfolding a_def b_def c_def using L M by (intro divide_left_mono; simp)+
  have "17/3 + a + b + c
      \<le> 17/3 + 9 / (2 * (158496250071/100000000000)) + 1 / (1 + 158496250071/100000000000)
          + 2 / (280735492205/100000000000)"
    using up by linarith
  also have "\<dots> < 960511773/100000000 + 1 / 100000000" by simp
  finally have 1: "17/3 + a + b + c < 960511773/100000000 + 1 / 100000000" .
  have "(960511773/100000000 :: real) - 1 / 100000000
      < 17/3 + 9 / (2 * (158496250073/100000000000)) + 1 / (1 + 158496250073/100000000000)
          + 2 / (280735492207/100000000000)"
    by simp
  also have "\<dots> \<le> 17/3 + a + b + c"
    using lo by linarith
  finally have 2: "960511773/100000000 - 1 / 100000000 < 17/3 + a + b + c" .
  have "\<bar>17/3 + a + b + c - 960511773/100000000\<bar> < 1 / 100000000"
    using 1 2 by linarith
  then show ?thesis unfolding a_def b_def c_def .
qed

lemma inverse_log2_3_bounds:
  "100000000000/158496250073 \<le> 1 / log 2 3" "1 / log 2 3 \<le> 100000000000/158496250071"
proof -
  note L = log2_3_bounds
  have "1 / (158496250073/100000000000) \<le> 1 / log 2 3"
    using L by (intro divide_left_mono) simp_all
  then show "100000000000/158496250073 \<le> 1 / log 2 3" by simp
  have "1 / log 2 3 \<le> 1 / (158496250071/100000000000)"
    using L by (intro divide_left_mono) simp_all
  then show "1 / log 2 3 \<le> 100000000000/158496250071" by simp
qed

lemma dcg_examples_4:
  "dcg_at_k [2, 1, 2, 0] 4 0 = Inr (NpFloat (3 + 2 * (1 / log 2 3)))"
  "dcg_at_k (sorted_reverse [2, 1, 2, 0]) 4 0 = Inr (NpFloat (4 + 1 / log 2 3))"
  "dcg_at_k [2, 1, 2, 0] 4 1 = Inr (NpFloat (3 + 1 / log 2 3))"
  "dcg_at_k (sorted_reverse [2, 1, 2, 0]) 4 1 = Inr (NpFloat (5/2 + 2 * (1 / log 2 3)))"
  by (simp_all add: eval_dcg log2_values)

lemma ndcg_examples_4:
  "ndcg_at_k [2, 1, 2, 0] 4 0
     = Inr (NpFloat ((3 + 2 * (1 / log 2 3)) / (4 + 1 / log 2 3)))"
  "ndcg_at_k [2, 1, 2, 0] 4 1
     = Inr (NpFloat ((3 + 1 / log 2 3) / (5/2 + 2 * (1 / log 2 3))))"
proof -
  have pos: "0 < 1 / log 2 (3 :: real)"
    using inverse_log2_3_bounds(1) by linarith
  then have nz: "4 + 1 / log 2 (3 :: real) \<noteq> 0" "5/2 + 2 * (1 / log 2 (3 :: real)) \<noteq> 0"
    by linarith+
  show "ndcg_at_k [2, 1, 2, 0] 4 0
     = Inr (NpFloat ((3 + 2 * (1 / log 2 3)) / (4 + 1 / log 2 3)))"
    unfolding ndcg_at_k_def dcg_examples_4 using nz(1) by (simp add: truediv_def)
  show "ndcg_at_k [2, 1, 2, 0] 4 1
     = Inr (NpFloat ((3 + 1 / log 2 3) / (5/2 + 2 * (1 / log 2 3))))"
    unfolding ndcg_at_k_def dcg_examples_4 using nz(2) by (simp add: truediv_def)
qed

lemma ndcg_examples_4_values:
  "\<bar>(3 + 2 * (1 / log 2 3)) / (4 + 1 / log 2 3) - 9203032/10000000\<bar> < 1 / 10000000"
  "\<bar>(3 + 1 / log 2 3) / (5/2 + 2 * (1 / log 2 3)) - 9651955/10000000\<bar> < 1 / 10000000"
proof -
  define a where "a = 1 / log 2 (3 :: real)"
  have a: "100000000000/158496250073 \<le> a" "a \<le> 100000000000/158496250071"
    unfolding a_def by (rule inverse_log2_3_bounds)+
  have p0: "0 < 4 + a" and p1: "0 < 5/2 + 2 * a" using a(1) by linarith+
  have "(3 + 2 * a) / (4 + a) < 9203033/10000000"
    using a by (subst pos_divide_less_eq [OF p0]) (simp add: algebra_simps)
  moreover have "9203031/10000000 < (3 + 2 * a) / (4 + a)"
    using a by (subst pos_less_divide_eq [OF p0]) (simp add: algebra_simps)
  ultimately have "\<bar>(3 + 2 * a) / (4 + a) - 9203032/10000000\<bar> < 1 / 10000000"
    by linarith
  then show "\<bar>(3 + 2 * (1 / log 2 3)) / (4 + 1 / log 2 3) - 9203032/10000000\<bar> < 1 / 10000000"
    unfolding a_def .
  have "(3 + a) / (5/2 + 2 * a) < 9651956/10000000"
    using a by (subst pos_divide_less_eq [OF p1]) (simp add: algebra_simps)
  moreover have "9651954/10000000 < (3 + a) / (5/2 + 2 * a)"
    using a by (subst pos_less_divide_eq [OF p1]) (simp add: algebra_simps)
  ultimately have "\<bar>(3 + a) / (5/2 + 2 * a) - 9651955/10000000\<bar> < 1 / 10000000"
    by linarith
  then show "\<bar>(3 + 1 / log 2 3) / (5/2 + 2 * (1 / log 2 3)) - 9651955/10000000\<bar> < 1 / 10000000"
    unfolding a_def .
qed

lemma sum_list_divide_zero: "\<forall>x \<in> set xs. x = 0 \<Longrightarrow> sum_list (divide xs ys) = 0"
  unfolding divide_def
proof (induction xs arbitrary: ys)
  case Nil
  then show ?case by simp
next
  case (Cons x xs)
  then show ?case by (cases ys) simp_all
qed

lemma dcg_at_k_all_zero:
  assumes "method = 0 \<or> method = 1" "\<forall>x \<in> set (py_slice r 0 k). x = 0"
  shows "\<exists>v. dcg_at_k r k method = Inr v \<and> \<not> truthy v"
proof (cases "py_slice r 0 k = []")
  case True
  then show ?thesis by (simp add: dcg_at_k_def)
next
  case False
  let ?t = "py_slice r 0 k"
  have "hd ?t = 0" using False assms(2) by (cases ?t) auto
  moreover have "\<forall>x \<in> set (tl ?t). x = 0"
    using False assms(2) by (cases ?t) auto
  ultimately show ?thesis
    using False assms by (auto simp: dcg_at_k_def Let_def sum_list_divide_zero)
qed

lemma ndcg_at_k_all_zero:
  assumes "method = 0 \<or> method = 1" "\<forall>x \<in> set (py_slice (sorted_reverse r) 0 k). x = 0"
  shows "ndcg_at_k r k method = Inr (PyFloat 0)"
proof -
  from dcg_at_k_all_zero [OF assms] obtain v where
    "dcg_at_k (sorted_reverse r) k method = Inr v" "\<not> truthy v" by blast
  then show ?thesis by (simp add: ndcg_at_k_def)
qed

lemma py_slice_all: "int (length r) \<le> k \<Longrightarrow> py_slice r 0 k = r"
  by (simp add: py_slice_def clip_index_def Let_def)

text \<open>A negative \<open>k\<close> does not cut the sequence to its first entries: \<^verbatim>\<open>r[:-1]\<close> is
  \<open>r\<close> without its last entry.\<close>

lemma dcg_at_k_negative_cutoff: "dcg_at_k [1, 2] (- 1) 0 = Inr (NpFloat 1)"
  by (simp add: eval_dcg)

text \<open>
  C1. For a cutoff \<open>k \<ge> 0\<close> (a number of results) and method 0 or 1, \<^verbatim>\<open>dcg_at_k\<close> is the
  reference definition on the first \<open>k\<close> entries: exactly \<^verbatim>\<open>0.0\<close> when there is none, else
  \<open>t[0] + \<Sum> t[i-1]/log2(i)\<close> over \<open>i = 2..|t|\<close> for method 0 and \<open>\<Sum> t[i-1]/log2(i+1)\<close> over
  \<open>i = 1..|t|\<close> for method 1. A cutoff beyond the length changes nothing. On the example
  sequence the values at \<open>k = 1, 2\<close> are 3 and 5, the value at \<open>k = 10\<close> is within \<open>10\<^sup>-\<^sup>8\<close> of
  9.60511773, and \<open>k = 11\<close> gives the value of \<open>k = 10\<close>. (A negative \<open>k\<close> is no cutoff: the
  slice \<^verbatim>\<open>r[:k]\<close> then drops entries from the end.)
\<close>

theorem dcg_at_k_reference:
  "(0 \<le> k \<and> (method = 0 \<or> method = 1) \<longrightarrow>
      dcg_at_k r k method =
        Inr (if take (nat k) r = [] then PyFloat 0 else NpFloat (dcg_spec r (nat k) method)))
   \<and> (int (length r) \<le> k \<longrightarrow> dcg_at_k r k method = dcg_at_k r (int (length r)) method)
   \<and> dcg_at_k [3, 2, 3, 0, 0, 1, 2, 2, 3, 0] 1 0 = Inr (NpFloat 3)
   \<and> dcg_at_k [3, 2, 3, 0, 0, 1, 2, 2, 3, 0] 2 0 = Inr (NpFloat 5)
   \<and> (\<exists>x. dcg_at_k [3, 2, 3, 0, 0, 1, 2, 2, 3, 0] 10 0 = Inr (NpFloat x)
          \<and> \<bar>x - 960511773/100000000\<bar> < 1 / 100000000)
   \<and> dcg_at_k [3, 2, 3, 0, 0, 1, 2, 2, 3, 0] 11 0 = dcg_at_k [3, 2, 3, 0, 0, 1, 2, 2, 3, 0] 10 0"
proof -
  have 1: "0 \<le> k \<and> (method = 0 \<or> method = 1) \<longrightarrow>
      dcg_at_k r k method =
        Inr (if take (nat k) r = [] then PyFloat 0 else NpFloat (dcg_spec r (nat k) method))"
    using dcg_at_k_refines [of k "method" r] by blast
  have 2: "int (length r) \<le> k \<longrightarrow> dcg_at_k r k method = dcg_at_k r (int (length r)) method"
    by (simp add: dcg_at_k_def py_slice_all)
  have 3: "dcg_at_k [3, 2, 3, 0, 0, 1, 2, 2, 3, 0] 1 0 = Inr (NpFloat 3)"
    "dcg_at_k [3, 2, 3, 0, 0, 1, 2, 2, 3, 0] 2 0 = Inr (NpFloat 5)"
    by (simp_all add: eval_dcg)
  have 4: "\<exists>x. dcg_at_k [3, 2, 3, 0, 0, 1, 2, 2, 3, 0] 10 0 = Inr (NpFloat x)
          \<and> \<bar>x - 960511773/100000000\<bar> < 1 / 100000000"
    using dcg_example_10 dcg_example_10_value by blast
  have 5: "dcg_at_k [3, 2, 3, 0, 0, 1, 2, 2, 3, 0] 11 0 = dcg_at_k [3, 2, 3, 0, 0, 1, 2, 2, 3, 0] 10 0"
    by (simp add: dcg_at_k_def py_slice_def clip_index_def)
  from 1 2 3 4 5 show ?thesis by (intro conjI)
qed

theorem dcg_at_k_reference_witness:
  "(0 :: int) \<le> 2 \<and> ((1 :: int) = 0 \<or> (1 :: int) = 1)
   \<and> dcg_at_k [3, 2, 3] 2 1 = Inr (NpFloat (dcg_spec [3, 2, 3] 2 1))
   \<and> dcg_spec [3, 2, 3] 2 1 = 3 + 2 / log 2 3
   \<and> int (length [3, 2, 3 :: real]) \<le> 5
   \<and> dcg_at_k [3, 2, 3] 5 1 = dcg_at_k [3, 2, 3] 3 1"
proof -
  have h: "(0 :: int) \<le> 2 \<and> ((1 :: int) = 0 \<or> (1 :: int) = 1)" by simp
  have l: "int (length [3, 2, 3 :: real]) \<le> 5" by simp
  have s: "dcg_spec [3, 2, 3] 2 1 = 3 + 2 / log 2 3"
    by (simp add: dcg_spec_def numeral_2_eq_2)
  have "dcg_at_k [3, 2, 3] 2 1 = Inr (NpFloat (dcg_spec [3, 2, 3] 2 1))"
    using dcg_at_k_reference [of 2 1 "[3, 2, 3]", THEN conjunct1] by simp
  moreover have "dcg_at_k [3, 2, 3] 5 1 = dcg_at_k [3, 2, 3] 3 1"
    using dcg_at_k_reference [of 5 1 "[3, 2, 3]", THEN conjunct2, THEN conjunct1] by simp
  ultimately show ?thesis using h l s by (intro conjI) simp_all
qed

text \<open>
  C2. For method 0 or 1, \<^verbatim>\<open>ndcg_at_k\<close> is the DCG of the sequence divided by the DCG of
  the sequence sorted in descending order, and exactly \<^verbatim>\<open>0.0\<close> when that ideal DCG is zero,
  in particular when every relevance in the truncated range is zero or the range is empty.
  The examples: 1 for the long sequence at \<open>k = 1\<close>; within \<open>10\<^sup>-\<^sup>7\<close> of 0.9203032 and of
  0.9651955 for \<open>[2, 1, 2, 0]\<close> at \<open>k = 4\<close> with methods 0 and 1; \<^verbatim>\<open>0.0\<close> for \<open>[0]\<close> at \<open>k = 1\<close>;
  1 for \<open>[1]\<close> at \<open>k = 2\<close>.
\<close>

theorem ndcg_at_k_quotient_of_dcgs:
  "((method = 0 \<or> method = 1) \<longrightarrow>
      (\<exists>d dcg_max. dcg_at_k r k method = Inr d
         \<and> dcg_at_k (sorted_reverse r) k method = Inr dcg_max
         \<and> is_finite d \<and> is_finite dcg_max
         \<and> ndcg_at_k r k method =
             (if fin dcg_max = 0 then Inr (PyFloat 0) else Inr (NpFloat (fin d / fin dcg_max)))))
   \<and> ((method = 0 \<or> method = 1) \<and> (\<forall>x \<in> set (py_slice (sorted_reverse r) 0 k). x = 0) \<longrightarrow>
        ndcg_at_k r k method = Inr (PyFloat 0))
   \<and> ndcg_at_k [3, 2, 3, 0, 0, 1, 2, 2, 3, 0] 1 0 = Inr (NpFloat 1)
   \<and> (\<exists>x. ndcg_at_k [2, 1, 2, 0] 4 0 = Inr (NpFloat x) \<and> \<bar>x - 9203032/10000000\<bar> < 1 / 10000000)
   \<and> (\<exists>x. ndcg_at_k [2, 1, 2, 0] 4 1 = Inr (NpFloat x) \<and> \<bar>x - 9651955/10000000\<bar> < 1 / 10000000)
   \<and> ndcg_at_k [0] 1 0 = Inr (PyFloat 0)
   \<and> ndcg_at_k [1] 2 0 = Inr (NpFloat 1)"
proof -
  have 1: "(method = 0 \<or> method = 1) \<longrightarrow>
      (\<exists>d dcg_max. dcg_at_k r k method = Inr d
         \<and> dcg_at_k (sorted_reverse r) k method = Inr dcg_max
         \<and> is_finite d \<and> is_finite dcg_max
         \<and> ndcg_at_k r k method =
             (if fin dcg_max = 0 then Inr (PyFloat 0) else Inr (NpFloat (fin d / fin dcg_max))))"
    using ndcg_at_k_quotient [of "method" r k] by blast
  have 2: "(method = 0 \<or> method = 1) \<and> (\<forall>x \<in> set (py_slice (sorted_reverse r) 0 k). x = 0) \<longrightarrow>
        ndcg_at_k r k method = Inr (PyFloat 0)"
    using ndcg_at_k_all_zero [of "method" r k] by blast
  have 3: "ndcg_at_k [3, 2, 3, 0, 0, 1, 2, 2, 3, 0] 1 0 = Inr (NpFloat 1)"
    "ndcg_at_k [0] 1 0 = Inr (PyFloat 0)" "ndcg_at_k [1] 2 0 = Inr (NpFloat 1)"
    by (simp_all add: eval_dcg)
  have 4: "\<exists>x. ndcg_at_k [2, 1, 2, 0] 4 0 = Inr (NpFloat x) \<and> \<bar>x - 9203032/10000000\<bar> < 1 / 10000000"
    using ndcg_examples_4(1) ndcg_examples_4_values(1) by blast
  have 5: "\<exists>x. ndcg_at_k [2, 1, 2, 0] 4 1 = Inr (NpFloat x) \<and> \<bar>x - 9651955/10000000\<bar> < 1 / 10000000"
    using ndcg_examples_4(2) ndcg_examples_4_values(2) by blast
  from 1 2 3 4 5 show ?thesis by (intro conjI)
qed

theorem ndcg_at_k_quotient_of_dcgs_witness:
  "((0 :: int) = 0 \<or> (0 :: int) = 1)
   \<and> (\<exists>d dcg_max. dcg_at_k [1, 0, 2] 2 0 = Inr d
         \<and> dcg_at_k (sorted_reverse [1, 0, 2]) 2 0 = Inr dcg_max
         \<and> d = NpFloat 1 \<and> dcg_max = NpFloat 3
         \<and> ndcg_at_k [1, 0, 2] 2 0 = Inr (NpFloat (fin d / fin dcg_max)))
   \<and> py_slice (sorted_reverse [0, 0]) 0 2 = [0, 0]
   \<and> ndcg_at_k [0, 0] 2 0 = Inr (PyFloat 0)"
proof -
  have m: "(0 :: int) = 0 \<or> (0 :: int) = 1" by simp
  have d: "dcg_at_k [1, 0, 2] 2 0 = Inr (NpFloat 1)"
    "dcg_at_k (sorted_reverse [1, 0, 2]) 2 0 = Inr (NpFloat 3)"
    by (simp_all add: eval_dcg)
  have s: "py_slice (sorted_reverse [0, 0]) 0 2 = [0, 0]"
    by (simp add: py_slice_def clip_index_def sorted_reverse_def)
  have q: "ndcg_at_k [1, 0, 2] 2 0 = Inr (NpFloat (fin (NpFloat 1) / fin (NpFloat 3)))"
    using ndcg_at_k_quotient_of_dcgs [of 0 "[1, 0, 2]" 2, THEN conjunct1] d by simp
  have z: "ndcg_at_k [0, 0] 2 0 = Inr (PyFloat 0)"
    using ndcg_at_k_quotient_of_dcgs [of 0 "[0, 0]" 2, THEN conjunct2, THEN conjunct1] s by simp
  have "\<exists>d dcg_max. dcg_at_k [1, 0, 2] 2 0 = Inr d
         \<and> dcg_at_k (sorted_reverse [1, 0, 2]) 2 0 = Inr dcg_max
         \<and> d = NpFloat 1 \<and> dcg_max = NpFloat 3
         \<and> ndcg_at_k [1, 0, 2] 2 0 = Inr (NpFloat (fin d / fin dcg_max))"
    using d q by (intro exI [of _ "NpFloat 1"] exI [of _ "NpFloat 3"] conjI) simp_all
  with m s z show ?thesis by (intro conjI)
qed

end
